theory Spec2Isabelle
  imports Complex_Main
begin

section \<open>The crawl orchestration engine of \<^verbatim>\<open>crawler.ts\<close>\<close>

text \<open>
  The model follows \<^verbatim>\<open>src/crawler/src/crawler.ts\<close> from the point where the crawl list
  has been read (line 175) to the end of \<^verbatim>\<open>crawl\<close>, together with
  \<^verbatim>\<open>loadAndHandlePage\<close>, \<^verbatim>\<open>scrollDownPage\<close> and \<^verbatim>\<open>randrange\<close>.
  Everything the engine consumes from outside (the browser, the scrapers, the subpage
  explorer, the URL parser, the host) is a parameter of the model. The database is a
  state of tables; its statements take no time and do not fail. Time is a clock in
  milliseconds that every awaited call advances.
\<close>

subsection \<open>Thrown values and flags\<close>

text \<open>A thrown value is an \<^verbatim>\<open>Error\<close> object with a message, or any other value (a string).\<close>

datatype exn = Error string | Thrown string

text \<open>\<^verbatim>\<open>e instanceof Error ? e.message : (e as string)\<close>, lines 543 to 547.\<close>

fun message :: "exn \<Rightarrow> string" where
  "message (Error m) = m"
| "message (Thrown v) = v"

record crawl_options =
  findAndCrawlPageWithAds :: int
  findAndCrawlArticlePage :: bool
  refreshPage :: bool

record scrape_options =
  scrapeSite :: bool
  scrapeAds :: bool
  captureThirdPartyRequests_flag :: bool

record crawler_flags =
  jobId :: "int option"
  crawlName :: "string option"
  resumeIfAble :: bool
  profileId :: "string option"
  profileDir :: "string option"
  url_flag :: "string option"
  crawlOptions :: crawl_options
  scrapeOptions :: scrape_options

text \<open>The crawl list as lines 121 to 173 leave it.\<close>

record crawl_input =
  crawlListFile :: string
  crawlList :: "string list"
  crawlListAdIds :: "int list"
  isAdUrlCrawl :: bool

text \<open>
  What the host provides: \<^verbatim>\<open>new URL(u).origin\<close> (\<open>None\<close> when the constructor throws),
  \<^verbatim>\<open>os.hostname()\<close> and the result of \<^verbatim>\<open>getPublicIp()\<close>.
\<close>

record host =
  urlOrigin :: "string \<Rightarrow> string option"
  hostname :: string
  publicIp :: "string option"

text \<open>JavaScript truthiness of an optional string: \<^verbatim>\<open>undefined\<close> and \<^verbatim>\<open>''\<close> are falsy.\<close>

fun truthy :: "string option \<Rightarrow> bool" where
  "truthy None = False"
| "truthy (Some v) = (v \<noteq> [])"

text \<open>
  \<^verbatim>\<open>path.basename\<close> of Node on a POSIX host: trailing slashes are dropped, then the part
  after the last slash is returned.
\<close>

definition basename :: "string \<Rightarrow> string" where
  "basename p =
     rev (takeWhile (\<lambda>c. c \<noteq> CHR ''/'') (dropWhile (\<lambda>c. c = CHR ''/'') (rev p)))"

subsection \<open>The \<^verbatim>\<open>crawl\<close> table\<close>

record crawl_row =
  row_id :: nat
  job_id :: "int option"
  name :: "string option"
  start_time :: nat
  completed :: bool
  completed_time :: "nat option"
  crawl_list :: "string option"
  crawl_list_current_index :: nat
  crawl_list_length :: nat
  profile_id :: "string option"
  profile_dir :: "string option"
  crawler_hostname :: string
  crawler_ip :: "string option"

record crawl_db =
  crawl_tbl :: "crawl_row list"
  next_crawl_id :: nat

text \<open>\<^verbatim>\<open>SELECT * FROM crawl WHERE name=$1\<close>\<close>

definition selectByName :: "string \<Rightarrow> crawl_db \<Rightarrow> crawl_row list" where
  "selectByName n db = filter (\<lambda>r. name r = Some n) (crawl_tbl db)"

text \<open>\<^verbatim>\<open>UPDATE crawl SET crawl_list_current_index=$1 WHERE id=$2\<close>\<close>

definition updateIndex :: "nat \<Rightarrow> nat \<Rightarrow> crawl_db \<Rightarrow> crawl_db" where
  "updateIndex k cid db =
     db\<lparr>crawl_tbl := map (\<lambda>r. if row_id r = cid then r\<lparr>crawl_list_current_index := k\<rparr> else r)
                         (crawl_tbl db)\<rparr>"

text \<open>\<^verbatim>\<open>UPDATE crawl SET completed=TRUE, completed_time=$1 WHERE id=$2\<close>\<close>

definition markCompleted :: "nat \<Rightarrow> nat \<Rightarrow> crawl_db \<Rightarrow> crawl_db" where
  "markCompleted t cid db =
     db\<lparr>crawl_tbl := map (\<lambda>r. if row_id r = cid
                               then r\<lparr>completed := True, completed_time := Some t\<rparr> else r)
                         (crawl_tbl db)\<rparr>"

text \<open>The row of a run, if there is one.\<close>

definition findRun :: "nat \<Rightarrow> crawl_db \<Rightarrow> crawl_row option" where
  "findRun cid db = find (\<lambda>r. row_id r = cid) (crawl_tbl db)"

subsection \<open>Validation of the crawl list (lines 175 to 184)\<close>

datatype diagnostic =
    InvalidUrl string nat string
  | ListNameMismatch string string
  | ListLengthMismatch nat nat
  | AlreadyCompleted string

text \<open>
  The loop over the crawl list. The counter \<open>i\<close> is the variable declared at line 176; the
  loop body never assigns it, so every call passes it on as it is.
\<close>

fun validateLoop :: "host \<Rightarrow> string \<Rightarrow> nat \<Rightarrow> string list \<Rightarrow> diagnostic option" where
  "validateLoop h file i [] = None"
| "validateLoop h file i (u # us) =
     (case urlOrigin h u of
        None \<Rightarrow> Some (InvalidUrl file i u)
      | Some _ \<Rightarrow> validateLoop h file i us)"

definition validateCrawlList :: "host \<Rightarrow> crawl_input \<Rightarrow> diagnostic option" where
  "validateCrawlList h inp = validateLoop h (crawlListFile inp) 1 (crawlList inp)"

subsection \<open>Creating or resuming the run (lines 189 to 245)\<close>

text \<open>
  Modelled from the spec: \<^verbatim>\<open>DbClient\<close> (\<^verbatim>\<open>util/db.js\<close>) is not among the sources.
  \<^verbatim>\<open>db.insert\<close> into the \<^verbatim>\<open>crawl\<close> table with \<^verbatim>\<open>returning: 'id'\<close> is
  \<open>create_run(...) -> run_id\<close>: it adds the row under a new id and returns that id.
\<close>

definition insertCrawl :: "crawl_row \<Rightarrow> crawl_db \<Rightarrow> nat \<times> crawl_db" where
  "insertCrawl data db =
     (next_crawl_id db,
      db\<lparr>crawl_tbl := crawl_tbl db @ [data\<lparr>row_id := next_crawl_id db\<rparr>],
         next_crawl_id := Suc (next_crawl_id db)\<rparr>)"

text \<open>\<^verbatim>\<open>createCrawlEntry\<close>, lines 191 to 209.\<close>

definition createCrawlEntry ::
  "host \<Rightarrow> crawler_flags \<Rightarrow> crawl_input \<Rightarrow> nat \<Rightarrow> crawl_db \<Rightarrow> nat \<times> crawl_db" where
  "createCrawlEntry h flags inp now db =
     insertCrawl
       \<lparr>row_id = 0,
        job_id = jobId flags,
        name = crawlName flags,
        start_time = now,
        completed = False,
        completed_time = None,
        crawl_list = (if crawlListFile inp \<noteq> [] then Some (crawlListFile inp)
                      else url_flag flags),
        crawl_list_current_index = 0,
        crawl_list_length = length (crawlList inp),
        profile_id = profileId flags,
        profile_dir = profileDir flags,
        crawler_hostname = hostname h,
        crawler_ip = publicIp h\<rparr> db"

text \<open>
  How the block at lines 211 to 245 ends: the process exits with a diagnostic, an exception
  leaves \<^verbatim>\<open>crawl\<close>, or the run's id and the starting index are set.
\<close>

datatype resolution =
    Exits diagnostic
  | Rejects exn
  | Proceeds nat nat crawl_db

text \<open>
  \<^verbatim>\<open>prevCrawl.rows[0]\<close> is the first row the query returns. \<^verbatim>\<open>path.basename\<close> throws a
  \<^verbatim>\<open>TypeError\<close> on a value that is not a string (a null \<^verbatim>\<open>crawl_list\<close> column).
\<close>

definition resolveRun ::
  "host \<Rightarrow> crawler_flags \<Rightarrow> crawl_input \<Rightarrow> nat \<Rightarrow> crawl_db \<Rightarrow> resolution" where
  "resolveRun h flags inp now db =
     (if truthy (crawlName flags) then
        (let prevCrawl = selectByName (the (crawlName flags)) db;
             crawlExists = (0 < length prevCrawl)
         in if crawlExists \<and> resumeIfAble flags then
              (case crawl_list (hd prevCrawl) of
                 None \<Rightarrow> Rejects (Error ''The path argument must be of type string'')
               | Some prevList \<Rightarrow>
                   if basename prevList \<noteq> basename (crawlListFile inp) then
                     Exits (ListNameMismatch (basename prevList) (basename (crawlListFile inp)))
                   else if crawl_list_length (hd prevCrawl) \<noteq> length (crawlList inp) then
                     Exits (ListLengthMismatch (crawl_list_length (hd prevCrawl))
                                               (length (crawlList inp)))
                   else if completed (hd prevCrawl) then
                     Exits (AlreadyCompleted (the (crawlName flags)))
                   else Proceeds (row_id (hd prevCrawl))
                                 (crawl_list_current_index (hd prevCrawl)) db)
            else (case createCrawlEntry h flags inp now db of
                    (cid, db') \<Rightarrow> Proceeds cid 0 db'))
      else (case createCrawlEntry h flags inp now db of
              (cid, db') \<Rightarrow> Proceeds cid 0 db'))"

subsection \<open>The \<^verbatim>\<open>page\<close> and \<^verbatim>\<open>request\<close> tables\<close>

datatype page_type = MAIN | SUBPAGE | LANDING

record page_row =
  page_id :: nat
  page_timestamp :: nat
  page_job_id :: "int option"
  page_crawl_id :: nat
  original_url :: string
  page_type :: page_type
  referrer_page :: "nat option"
  referrer_page_url :: "string option"
  referrer_ad :: "int option"
  reload :: nat
  page_url :: "string option"
  page_error :: "string option"

text \<open>\<^verbatim>\<open>WebRequest\<close>; \<^verbatim>\<open>parent_page\<close> is \<open>-1\<close> until the request is saved.\<close>

record web_request =
  timestamp :: nat
  request_job_id :: "int option"
  request_crawl_id :: nat
  parent_page :: int
  initiator :: string
  target_url :: string
  resource_type :: string

record load_page_metadata =
  pageType :: page_type
  referrerPageId :: "nat option"
  referrerPageUrl :: "string option"
  referrerAd :: "int option"
  reload_count :: nat

subsection \<open>The browser, seen from the engine\<close>

type_synonym tab = nat

text \<open>
  What an awaited call of the browser or of a collaborator does: its promise resolves or
  rejects after some milliseconds, or never settles.
\<close>

datatype 'a reply = Resolves 'a nat | RejectsWith exn nat | Never

text \<open>
  A request as the \<^verbatim>\<open>request\<close> event hands it to the handler: \<^verbatim>\<open>request.url()\<close>,
  \<^verbatim>\<open>request.isNavigationRequest()\<close>, \<^verbatim>\<open>request.frame() === page.mainFrame()\<close> and
  \<^verbatim>\<open>request.resourceType()\<close>, with \<^verbatim>\<open>page.url()\<close> and the time at that moment.
\<close>

record http_request =
  request_url :: string
  isNavigationRequest :: bool
  inMainFrame :: bool
  resourceType :: string
  page_url_then :: string
  seen_at :: nat

text \<open>
  The calls the engine makes. \<open>'b\<close> is the state of the world outside the engine; an
  awaited call returns its reply and the next state. \<^verbatim>\<open>page.url()\<close> and
  \<^verbatim>\<open>Math.random()\<close> are synchronous. \<open>intercepted\<close> lists the requests the tab has
  emitted so far, in order.
\<close>

record 'b driver =
  launch :: "'b \<Rightarrow> unit reply \<times> 'b"
  version :: "'b \<Rightarrow> string reply \<times> 'b"
  newPage :: "'b \<Rightarrow> tab reply \<times> 'b"
  closePage :: "tab \<Rightarrow> 'b \<Rightarrow> unit reply \<times> 'b"
  setRequestInterception :: "tab \<Rightarrow> bool \<Rightarrow> 'b \<Rightarrow> unit reply \<times> 'b"
  goto :: "tab \<Rightarrow> string \<Rightarrow> nat \<Rightarrow> 'b \<Rightarrow> unit reply \<times> 'b"
  removeCookieBanners :: "tab \<Rightarrow> 'b \<Rightarrow> unit reply \<times> 'b"
  keyboardPress :: "tab \<Rightarrow> string \<Rightarrow> 'b \<Rightarrow> unit reply \<times> 'b"
  evaluate :: "tab \<Rightarrow> string \<Rightarrow> 'b \<Rightarrow> real reply \<times> 'b"
  mouseMove :: "tab \<Rightarrow> real \<Rightarrow> real \<Rightarrow> 'b \<Rightarrow> unit reply \<times> 'b"
  mouseWheel :: "tab \<Rightarrow> real \<Rightarrow> 'b \<Rightarrow> unit reply \<times> 'b"
  scrapePage :: "tab \<Rightarrow> nat \<Rightarrow> page_type \<Rightarrow> int option \<Rightarrow> 'b \<Rightarrow> unit reply \<times> 'b"
  scrapeAdsOnPage :: "tab \<Rightarrow> string \<Rightarrow> page_type \<Rightarrow> nat \<Rightarrow> 'b \<Rightarrow> unit reply \<times> 'b"
  findArticle :: "tab \<Rightarrow> 'b \<Rightarrow> string option reply \<times> 'b"
  findHealthRelatedPagesWithAds :: "tab \<Rightarrow> 'b \<Rightarrow> string option reply \<times> 'b"
  pageUrl :: "tab \<Rightarrow> 'b \<Rightarrow> string"
  random :: "'b \<Rightarrow> real \<times> 'b"
  intercepted :: "tab \<Rightarrow> 'b \<Rightarrow> http_request list"

text \<open>
  Every call is recorded, in the order the engine makes it, and so is the firing of a
  timer the engine waits for (with the timer's message).
\<close>

datatype event =
    Launch
  | Version
  | NewPage
  | ClosePage tab
  | SetRequestInterception tab bool
  | Goto tab string
  | Sleep nat
  | RemoveCookieBanners tab
  | KeyboardPress tab string
  | Evaluate tab string
  | MouseMove tab real real
  | MouseWheel tab real
  | ScrapePage tab nat
  | ScrapeAdsOnPage tab nat
  | FindArticle tab
  | FindHealthRelatedPagesWithAds tab
  | LogError string string
  | LogStrError string
  | TimeoutFired string

text \<open>
  The state the engine threads through a run, the \<^verbatim>\<open>crawl\<close> table apart: the wall clock
  in milliseconds, the deadline of the timer the running code is raced against (if any),
  the calls made so far, the \<^verbatim>\<open>page\<close> and \<^verbatim>\<open>request\<close> tables, the variable
  \<^verbatim>\<open>seedPage\<close> of the current loop iteration, and the outside world.
\<close>

record 'b state =
  clock :: nat
  deadline :: "nat option"
  trace :: "event list"
  page_tbl :: "page_row list"
  next_page_id :: nat
  request_tbl :: "web_request list"
  seedPage :: tab
  browser :: 'b

subsection \<open>Asynchronous code as state passing\<close>

text \<open>
  An awaited computation returns a value, throws, is abandoned because the timer it is
  raced against fired first (\<open>TimedOut\<close>), or never settles (\<open>Hung\<close>). In the last two
  cases no handler and no \<^verbatim>\<open>finally\<close> block of the awaiting code runs. What abandoned
  code would still do in the background is not modelled.
\<close>

datatype 'a outcome = Returned 'a | Threw exn | TimedOut | Hung

definition ret :: "'a \<Rightarrow> 's \<Rightarrow> 'a outcome \<times> 's" where
  "ret a s = (Returned a, s)"

definition throw :: "exn \<Rightarrow> 's \<Rightarrow> 'a outcome \<times> 's" where
  "throw e s = (Threw e, s)"

definition andThen ::
  "('s \<Rightarrow> 'a outcome \<times> 's) \<Rightarrow> ('a \<Rightarrow> 's \<Rightarrow> 'c outcome \<times> 's) \<Rightarrow> 's \<Rightarrow> 'c outcome \<times> 's" where
  "andThen m f s =
     (case m s of
        (Returned a, s') \<Rightarrow> f a s'
      | (Threw e, s') \<Rightarrow> (Threw e, s')
      | (TimedOut, s') \<Rightarrow> (TimedOut, s')
      | (Hung, s') \<Rightarrow> (Hung, s'))"

text \<open>\<^verbatim>\<open>try { m } catch (e) { h(e) }\<close>\<close>

definition tryCatch ::
  "('s \<Rightarrow> 'a outcome \<times> 's) \<Rightarrow> (exn \<Rightarrow> 's \<Rightarrow> 'a outcome \<times> 's) \<Rightarrow> 's \<Rightarrow> 'a outcome \<times> 's" where
  "tryCatch m h s = (case m s of (Threw e, s') \<Rightarrow> h e s' | (r, s') \<Rightarrow> (r, s'))"

text \<open>\<^verbatim>\<open>try { m } finally { fin }\<close>, for a block \<open>fin\<close> that cannot throw.\<close>

definition tryFinally ::
  "('s \<Rightarrow> 'a outcome \<times> 's) \<Rightarrow> ('s \<Rightarrow> 's) \<Rightarrow> 's \<Rightarrow> 'a outcome \<times> 's" where
  "tryFinally m fin s =
     (case m s of
        (Returned a, s') \<Rightarrow> (Returned a, fin s')
      | (Threw e, s') \<Rightarrow> (Threw e, fin s')
      | (TimedOut, s') \<Rightarrow> (TimedOut, s')
      | (Hung, s') \<Rightarrow> (Hung, s'))"

text \<open>Whether the timer fires before the reply settles (a tie goes to the timer).\<close>

fun timerWins :: "nat option \<Rightarrow> nat \<Rightarrow> 'a reply \<Rightarrow> bool" where
  "timerWins None now rep = False"
| "timerWins (Some d) now Never = True"
| "timerWins (Some d) now (Resolves a dur) = (d \<le> now + dur)"
| "timerWins (Some d) now (RejectsWith e dur) = (d \<le> now + dur)"

text \<open>\<^verbatim>\<open>await call(...)\<close>\<close>

definition await :: "event \<Rightarrow> ('b \<Rightarrow> 'a reply \<times> 'b) \<Rightarrow> 'b state \<Rightarrow> 'a outcome \<times> 'b state" where
  "await ev call s =
     (case call (browser s) of
        (rep, b') \<Rightarrow>
          (let s1 = s\<lparr>trace := trace s @ [ev], browser := b'\<rparr>
           in if timerWins (deadline s) (clock s) rep
              then (TimedOut, s1\<lparr>clock := max (clock s) (the (deadline s))\<rparr>)
              else (case rep of
                      Never \<Rightarrow> (Hung, s1)
                    | Resolves a dur \<Rightarrow> (Returned a, s1\<lparr>clock := clock s + dur\<rparr>)
                    | RejectsWith e dur \<Rightarrow> (Threw e, s1\<lparr>clock := clock s + dur\<rparr>))))"

text \<open>A call whose promise is not awaited (\<^verbatim>\<open>seedPage.close()\<close> at line 389).\<close>

definition notAwaited :: "event \<Rightarrow> ('b \<Rightarrow> 'a reply \<times> 'b) \<Rightarrow> 'b state \<Rightarrow> 'b state" where
  "notAwaited ev call s = s\<lparr>trace := trace s @ [ev], browser := snd (call (browser s))\<rparr>"

text \<open>
  Modelled from the spec: \<^verbatim>\<open>sleep\<close> (\<^verbatim>\<open>util/timeout.js\<close>) is not among the sources.
  \<^verbatim>\<open>await sleep(ms)\<close> is the spec's pause of a fixed duration: it resolves after \<open>ms\<close>
  milliseconds.
\<close>

definition sleep :: "nat \<Rightarrow> 'b state \<Rightarrow> unit outcome \<times> 'b state" where
  "sleep ms = await (Sleep ms) (\<lambda>b. (Resolves () ms, b))"

text \<open>
  Modelled from the spec: the logger (\<^verbatim>\<open>util/log.js\<close>) is not among the sources.
  \<^verbatim>\<open>log.error(e, url)\<close> and \<^verbatim>\<open>log.strError(msg)\<close> write a log entry and do nothing
  else (a failure is "logged with the current page URL for context").
\<close>

definition logError :: "exn \<Rightarrow> string \<Rightarrow> 'b state \<Rightarrow> 'b state" where
  "logError e u s = s\<lparr>trace := trace s @ [LogError (message e) u]\<rparr>"

definition logStrError :: "string \<Rightarrow> 'b state \<Rightarrow> 'b state" where
  "logStrError m s = s\<lparr>trace := trace s @ [LogStrError m]\<rparr>"

definition PAGE_NAVIGATION_TIMEOUT :: nat where
  "PAGE_NAVIGATION_TIMEOUT = 3 * 60 * 1000"

definition PAGE_SLEEP_TIME :: nat where
  "PAGE_SLEEP_TIME = 10 * 1000"

subsection \<open>The request handler (lines 448 to 482)\<close>

datatype handler_action = Continue | LogWarning

text \<open>
  One call of \<^verbatim>\<open>captureThirdPartyRequests\<close> on the buffer \<^verbatim>\<open>requests\<close>: the new buffer
  and what the handler did with the request. \<^verbatim>\<open>new URL(...)\<close> is the one call in the
  \<^verbatim>\<open>try\<close> block the model lets throw.
\<close>

definition captureThirdPartyRequests ::
  "host \<Rightarrow> crawler_flags \<Rightarrow> nat \<Rightarrow> http_request \<Rightarrow> web_request list
     \<Rightarrow> web_request list \<times> handler_action list" where
  "captureThirdPartyRequests h flags cid request requests =
     (if \<not> captureThirdPartyRequests_flag (scrapeOptions flags) then (requests, [Continue])
      else if isNavigationRequest request \<and> inMainFrame request then (requests, [Continue])
      else (case urlOrigin h (request_url request) of
              None \<Rightarrow> (requests, [LogWarning, Continue])
            | Some requestOrigin \<Rightarrow>
                (case urlOrigin h (page_url_then request) of
                   None \<Rightarrow> (requests, [LogWarning, Continue])
                 | Some pageOrigin \<Rightarrow>
                     if requestOrigin = pageOrigin then (requests, [Continue])
                     else (requests @
                             [\<lparr>timestamp = seen_at request,
                               request_job_id = jobId flags,
                               request_crawl_id = cid,
                               parent_page = -1,
                               initiator = page_url_then request,
                               target_url = request_url request,
                               resource_type = resourceType request\<rparr>],
                           [Continue]))))"

text \<open>The buffer after the handler has seen a sequence of requests.\<close>

fun handleAll ::
  "host \<Rightarrow> crawler_flags \<Rightarrow> nat \<Rightarrow> http_request list \<Rightarrow> web_request list \<Rightarrow> web_request list" where
  "handleAll h flags cid [] requests = requests"
| "handleAll h flags cid (r # rs) requests =
     handleAll h flags cid rs (fst (captureThirdPartyRequests h flags cid r requests))"

subsection \<open>Scrolling (lines 552 to 580)\<close>

text \<open>\<^verbatim>\<open>randrange\<close>: one draw of \<^verbatim>\<open>Math.random()\<close>, scaled.\<close>

definition randrange :: "'b driver \<Rightarrow> real \<Rightarrow> real \<Rightarrow> 'b state \<Rightarrow> real outcome \<times> 'b state" where
  "randrange drv low high s =
     (case random drv (browser s) of
        (r, b') \<Rightarrow> (Returned (r * (high - low) + low), s\<lparr>browser := b'\<rparr>))"

text \<open>The \<^verbatim>\<open>while\<close> loop of \<^verbatim>\<open>scrollDownPage\<close>, from the values read before it.\<close>

function scrollLoop ::
  "'b driver \<Rightarrow> tab \<Rightarrow> real \<Rightarrow> real \<Rightarrow> real \<Rightarrow> nat \<Rightarrow> 'b state \<Rightarrow> unit outcome \<times> 'b state" where
  "scrollLoop drv page innerHeight scrollHeight scrollY i =
     (if scrollY + innerHeight < scrollHeight \<and> i < 30 then
        andThen (randrange drv 50 100) (\<lambda>xloc.
        andThen (randrange drv 50 100) (\<lambda>yloc.
        andThen (randrange drv 200 400) (\<lambda>ydelta.
        andThen (await (MouseMove page xloc yloc) (mouseMove drv page xloc yloc)) (\<lambda>_.
        andThen (await (MouseWheel page ydelta) (mouseWheel drv page ydelta)) (\<lambda>_.
        andThen (sleep 1000) (\<lambda>_.
        andThen (await (Evaluate page ''window.scrollY'')
                       (evaluate drv page ''window.scrollY'')) (\<lambda>scrollY'.
        scrollLoop drv page innerHeight scrollHeight scrollY' (i + 1))))))))
      else ret ())"
  by pat_completeness auto
termination
  by (relation "measure (\<lambda>(drv, page, innerHeight, scrollHeight, scrollY, i). 30 - i)") auto

declare scrollLoop.simps [simp del]

definition scrollDownPage :: "'b driver \<Rightarrow> tab \<Rightarrow> 'b state \<Rightarrow> unit outcome \<times> 'b state" where
  "scrollDownPage drv page =
     andThen (await (Evaluate page ''window.innerHeight'')
                    (evaluate drv page ''window.innerHeight'')) (\<lambda>innerHeight.
     andThen (await (Evaluate page ''window.scrollY'')
                    (evaluate drv page ''window.scrollY'')) (\<lambda>scrollY.
     andThen (await (Evaluate page ''document.body.scrollHeight'')
                    (evaluate drv page ''document.body.scrollHeight'')) (\<lambda>scrollHeight.
     scrollLoop drv page innerHeight scrollHeight scrollY 0)))"

subsection \<open>Loading one page (lines 423 to 550)\<close>

text \<open>
  Modelled from the spec: \<^verbatim>\<open>DbClient\<close> (\<^verbatim>\<open>util/db.js\<close>) is not among the sources.
  \<^verbatim>\<open>archivePage\<close> is \<open>create_page_visit(fields) -> page_id\<close>: it adds the row and returns
  its new id. \<^verbatim>\<open>updatePage\<close> is \<open>update_page_visit(page_id, fields_or_error)\<close>: it changes
  the row of that id. \<^verbatim>\<open>archiveRequest\<close> is \<open>record_captured_request(fields)\<close>. The
  three take no time and do not fail.
\<close>

definition archivePage :: "page_row \<Rightarrow> 'b state \<Rightarrow> nat outcome \<times> 'b state" where
  "archivePage row s =
     (Returned (next_page_id s),
      s\<lparr>page_tbl := page_tbl s @ [row\<lparr>page_id := next_page_id s\<rparr>],
        next_page_id := Suc (next_page_id s)\<rparr>)"

definition updatePage :: "nat \<Rightarrow> (page_row \<Rightarrow> page_row) \<Rightarrow> 'b state \<Rightarrow> unit outcome \<times> 'b state" where
  "updatePage pageId changes s =
     (Returned (),
      s\<lparr>page_tbl := map (\<lambda>r. if page_id r = pageId then changes r else r) (page_tbl s)\<rparr>)"

definition archiveRequest :: "web_request \<Rightarrow> 'b state \<Rightarrow> unit outcome \<times> 'b state" where
  "archiveRequest request s = (Returned (), s\<lparr>request_tbl := request_tbl s @ [request]\<rparr>)"

text \<open>The loop at lines 526 to 529.\<close>

fun saveRequests :: "nat \<Rightarrow> web_request list \<Rightarrow> 'b state \<Rightarrow> unit outcome \<times> 'b state" where
  "saveRequests pageId [] = ret ()"
| "saveRequests pageId (request # rest) =
     andThen (archiveRequest (request\<lparr>parent_page := int pageId\<rparr>)) (\<lambda>_.
     saveRequests pageId rest)"

text \<open>The body of the \<^verbatim>\<open>try\<close> block, lines 445 to 541.\<close>

definition loadAndHandlePage_try ::
  "'b driver \<Rightarrow> host \<Rightarrow> crawler_flags \<Rightarrow> nat \<Rightarrow> string \<Rightarrow> tab \<Rightarrow> load_page_metadata \<Rightarrow> nat
     \<Rightarrow> 'b state \<Rightarrow> nat outcome \<times> 'b state" where
  "loadAndHandlePage_try drv h flags cid url page metadata pageId =
     andThen (await (SetRequestInterception page True)
                    (setRequestInterception drv page True)) (\<lambda>_.
     andThen (await (Goto page url) (goto drv page url PAGE_NAVIGATION_TIMEOUT)) (\<lambda>_.
     andThen (sleep PAGE_SLEEP_TIME) (\<lambda>_.
     andThen (await (RemoveCookieBanners page) (removeCookieBanners drv page)) (\<lambda>_.
     andThen (await (KeyboardPress page ''Escape'') (keyboardPress drv page ''Escape'')) (\<lambda>_.
     andThen (scrollDownPage drv page) (\<lambda>_.
     andThen (if scrapeSite (scrapeOptions flags)
              then await (ScrapePage page pageId)
                         (scrapePage drv page pageId (pageType metadata) (referrerAd metadata))
              else (\<lambda>s. updatePage pageId
                           (\<lambda>r. r\<lparr>page_timestamp := clock s,
                                  page_url := Some (pageUrl drv page (browser s))\<rparr>) s)) (\<lambda>_.
     andThen (if scrapeAds (scrapeOptions flags)
              then await (ScrapeAdsOnPage page pageId)
                         (scrapeAdsOnPage drv page url (pageType metadata) pageId)
              else ret ()) (\<lambda>_.
     andThen (if captureThirdPartyRequests_flag (scrapeOptions flags)
              then (\<lambda>s. saveRequests pageId
                           (handleAll h flags cid (intercepted drv page (browser s)) []) s)
              else ret ()) (\<lambda>_.
     ret pageId)))))))))"

definition loadAndHandlePage ::
  "'b driver \<Rightarrow> host \<Rightarrow> crawler_flags \<Rightarrow> nat \<Rightarrow> string \<Rightarrow> tab \<Rightarrow> load_page_metadata
     \<Rightarrow> 'b state \<Rightarrow> nat outcome \<times> 'b state" where
  "loadAndHandlePage drv h flags cid url page metadata s =
     andThen (archivePage
                \<lparr>page_id = 0,
                 page_timestamp = clock s,
                 page_job_id = jobId flags,
                 page_crawl_id = cid,
                 original_url = url,
                 page_type = pageType metadata,
                 referrer_page = referrerPageId metadata,
                 referrer_page_url = referrerPageUrl metadata,
                 referrer_ad = referrerAd metadata,
                 reload = reload_count metadata,
                 page_url = None,
                 page_error = None\<rparr>) (\<lambda>pageId.
     tryCatch (loadAndHandlePage_try drv h flags cid url page metadata pageId)
              (\<lambda>e. andThen (updatePage pageId (\<lambda>r. r\<lparr>page_error := Some (message e)\<rparr>)) (\<lambda>_.
                    throw e))) s"

subsection \<open>One crawl list item (lines 278 to 390)\<close>

text \<open>The two calls at lines 294 to 305 (and 310 to 320), on the tab \<^verbatim>\<open>seedPage\<close>.\<close>

definition loadSeedPage ::
  "'b driver \<Rightarrow> host \<Rightarrow> crawler_flags \<Rightarrow> crawl_input \<Rightarrow> nat \<Rightarrow> string \<Rightarrow> int option \<Rightarrow> nat
     \<Rightarrow> 'b state \<Rightarrow> nat outcome \<times> 'b state" where
  "loadSeedPage drv h flags inp cid url prevAdId rl s =
     (if isAdUrlCrawl inp then
        loadAndHandlePage drv h flags cid url (seedPage s)
          \<lparr>pageType = LANDING, referrerPageId = None, referrerPageUrl = None,
           referrerAd = prevAdId, reload_count = rl\<rparr> s
      else
        loadAndHandlePage drv h flags cid url (seedPage s)
          \<lparr>pageType = MAIN, referrerPageId = None, referrerPageUrl = None,
           referrerAd = None, reload_count = rl\<rparr> s)"

text \<open>One load of a subpage in a tab of its own (lines 329 to 336, 338 to 345, 355 to 362, 364 to 371).\<close>

definition loadSubpage ::
  "'b driver \<Rightarrow> host \<Rightarrow> crawler_flags \<Rightarrow> nat \<Rightarrow> string \<Rightarrow> nat \<Rightarrow> nat
     \<Rightarrow> 'b state \<Rightarrow> unit outcome \<times> 'b state" where
  "loadSubpage drv h flags cid target pageId rl =
     andThen (await NewPage (newPage drv)) (\<lambda>subPage.
     andThen (\<lambda>s. loadAndHandlePage drv h flags cid target subPage
                     \<lparr>pageType = SUBPAGE, referrerPageId = Some pageId,
                      referrerPageUrl = Some (pageUrl drv (seedPage s) (browser s)),
                      referrerAd = None, reload_count = rl\<rparr> s) (\<lambda>_.
     await (ClosePage subPage) (closePage drv subPage)))"

text \<open>The visit of a found subpage, once or twice (lines 329 to 346 and 355 to 372).\<close>

definition visitSubpage ::
  "'b driver \<Rightarrow> host \<Rightarrow> crawler_flags \<Rightarrow> nat \<Rightarrow> string \<Rightarrow> nat
     \<Rightarrow> 'b state \<Rightarrow> unit outcome \<times> 'b state" where
  "visitSubpage drv h flags cid target pageId =
     andThen (loadSubpage drv h flags cid target pageId 0) (\<lambda>_.
     if refreshPage (crawlOptions flags) then loadSubpage drv h flags cid target pageId 1
     else ret ())"

text \<open>The loop at lines 352 to 377.\<close>

function findAndCrawlPagesWithAds ::
  "'b driver \<Rightarrow> host \<Rightarrow> crawler_flags \<Rightarrow> nat \<Rightarrow> string \<Rightarrow> nat \<Rightarrow> nat
     \<Rightarrow> 'b state \<Rightarrow> unit outcome \<times> 'b state" where
  "findAndCrawlPagesWithAds drv h flags cid url pageId i =
     (if int i < findAndCrawlPageWithAds (crawlOptions flags) then
        andThen (\<lambda>s. await (FindHealthRelatedPagesWithAds (seedPage s))
                           (findHealthRelatedPagesWithAds drv (seedPage s)) s) (\<lambda>urlWithAds.
        if truthy urlWithAds then
          andThen (visitSubpage drv h flags cid (the urlWithAds) pageId) (\<lambda>_.
          findAndCrawlPagesWithAds drv h flags cid url pageId (i + 1))
        else (\<lambda>s. ret () (logStrError (url @ '': Could not find page with ads'') s)))
      else ret ())"
  by pat_completeness auto
termination
  by (relation "measure (\<lambda>(drv, h, flags, cid, url, pageId, i).
                  nat (findAndCrawlPageWithAds (crawlOptions flags) - int i))") auto

declare findAndCrawlPagesWithAds.simps [simp del]

text \<open>\<^verbatim>\<open>clearTimeout(urlTimeoutId)\<close>\<close>

definition clearTimeout :: "'b state \<Rightarrow> 'b state" where
  "clearTimeout s = s\<lparr>deadline := None\<rparr>"

text \<open>The asynchronous function \<^verbatim>\<open>_crawl\<close>, lines 289 to 383.\<close>

definition crawlWork ::
  "'b driver \<Rightarrow> host \<Rightarrow> crawler_flags \<Rightarrow> crawl_input \<Rightarrow> nat \<Rightarrow> string \<Rightarrow> int option
     \<Rightarrow> 'b state \<Rightarrow> unit outcome \<times> 'b state" where
  "crawlWork drv h flags inp cid url prevAdId =
     tryFinally
       (tryCatch
          (andThen (loadSeedPage drv h flags inp cid url prevAdId 0) (\<lambda>pageId0.
           andThen (if refreshPage (crawlOptions flags) then
                      andThen (\<lambda>s. await (ClosePage (seedPage s))
                                         (closePage drv (seedPage s)) s) (\<lambda>_.
                      andThen (await NewPage (newPage drv)) (\<lambda>p.
                      andThen (\<lambda>s. ret () (s\<lparr>seedPage := p\<rparr>)) (\<lambda>_.
                      loadSeedPage drv h flags inp cid url prevAdId 1)))
                    else ret pageId0) (\<lambda>pageId.
           andThen (if findAndCrawlArticlePage (crawlOptions flags) then
                      andThen (\<lambda>s. await (FindArticle (seedPage s))
                                         (findArticle drv (seedPage s)) s) (\<lambda>articleUrl.
                      if truthy articleUrl
                      then visitSubpage drv h flags cid (the articleUrl) pageId
                      else (\<lambda>s. ret () (logStrError (url @ '': Could not find article'') s)))
                    else ret ()) (\<lambda>_.
           findAndCrawlPagesWithAds drv h flags cid url pageId 0))))
          (\<lambda>e s. ret () (logError e (pageUrl drv (seedPage s) (browser s)) s)))
       clearTimeout"

text \<open>
  Modelled from the spec: \<^verbatim>\<open>createAsyncTimeout\<close> (\<^verbatim>\<open>util/timeout.js\<close>) is not among the
  sources. The spec has a timer that is raced against the work on a target and wins when
  it fires. The call at line 283 passes a message and a number of milliseconds and
  receives a promise and a timer id (cleared by \<^verbatim>\<open>clearTimeout\<close> at line 381): the timer
  starts when the function is called and fires that many milliseconds later, rejecting
  the promise with the message. The model keeps the time at which it fires.
\<close>

definition createAsyncTimeout :: "nat \<Rightarrow> nat \<Rightarrow> nat" where
  "createAsyncTimeout now ms = now + ms"

text \<open>
  \<^verbatim>\<open>Promise.race([work, urlTimeout])\<close> for a timer that fires at \<open>d\<close>: while \<open>work\<close>
  runs, every call it awaits is raced against the timer. When the timer wins, the race
  rejects with the timer's message, at the time \<open>d\<close> or later.
\<close>

definition race ::
  "nat \<Rightarrow> string \<Rightarrow> ('b state \<Rightarrow> 'a outcome \<times> 'b state) \<Rightarrow> 'b state \<Rightarrow> 'a outcome \<times> 'b state" where
  "race d msg work s =
     (case work (s\<lparr>deadline := Some d\<rparr>) of
        (Returned a, s') \<Rightarrow> (Returned a, s'\<lparr>deadline := None\<rparr>)
      | (Threw e, s') \<Rightarrow> (Threw e, s'\<lparr>deadline := None\<rparr>)
      | (TimedOut, s') \<Rightarrow>
          (Threw (Error msg),
           s'\<lparr>clock := max (clock s') d, deadline := None,
              trace := trace s' @ [TimeoutFired msg]\<rparr>)
      | (Hung, s') \<Rightarrow>
          (Threw (Error msg),
           s'\<lparr>clock := max (clock s') d, deadline := None,
              trace := trace s' @ [TimeoutFired msg]\<rparr>))"

text \<open>Line 187.\<close>

definition OVERALL_TIMEOUT :: "crawl_input \<Rightarrow> nat" where
  "OVERALL_TIMEOUT inp = length (crawlList inp) * 15 * 60 * 1000"

text \<open>
  The body of the main loop for the index \<open>i\<close>. The \<^verbatim>\<open>finally\<close> block runs when the
  \<^verbatim>\<open>try\<close> block returns or throws.
\<close>

definition crawlItem ::
  "'b driver \<Rightarrow> host \<Rightarrow> crawler_flags \<Rightarrow> crawl_input \<Rightarrow> nat \<Rightarrow> nat \<Rightarrow> crawl_db \<Rightarrow> 'b state
     \<Rightarrow> unit outcome \<times> crawl_db \<times> 'b state" where
  "crawlItem drv h flags inp cid i db s =
     (let url = crawlList inp ! i;
          prevAdId = (if isAdUrlCrawl inp \<and> i < length (crawlListAdIds inp)
                      then Some (crawlListAdIds inp ! i) else None);
          urlTimeout = createAsyncTimeout (clock s) (OVERALL_TIMEOUT inp)
      in case await NewPage (newPage drv) s of
           (Returned p, s1) \<Rightarrow>
             (case tryCatch
                     (race urlTimeout (url @ '': overall site timeout reached'')
                        (crawlWork drv h flags inp cid url prevAdId))
                     (\<lambda>e s. ret () (logError e (pageUrl drv (seedPage s) (browser s)) s))
                     (s1\<lparr>seedPage := p\<rparr>) of
                (Returned u, s2) \<Rightarrow>
                  (Returned u, updateIndex (i + 1) cid db,
                   notAwaited (ClosePage (seedPage s2)) (closePage drv (seedPage s2)) s2)
              | (Threw e, s2) \<Rightarrow>
                  (Threw e, updateIndex (i + 1) cid db,
                   notAwaited (ClosePage (seedPage s2)) (closePage drv (seedPage s2)) s2)
              | (TimedOut, s2) \<Rightarrow> (TimedOut, db, s2)
              | (Hung, s2) \<Rightarrow> (Hung, db, s2))
         | (Threw e, s1) \<Rightarrow> (Threw e, db, s1)
         | (TimedOut, s1) \<Rightarrow> (TimedOut, db, s1)
         | (Hung, s1) \<Rightarrow> (Hung, db, s1))"

text \<open>The main loop, lines 277 to 392.\<close>

function crawlLoop ::
  "'b driver \<Rightarrow> host \<Rightarrow> crawler_flags \<Rightarrow> crawl_input \<Rightarrow> nat \<Rightarrow> nat \<Rightarrow> crawl_db \<Rightarrow> 'b state
     \<Rightarrow> unit outcome \<times> crawl_db \<times> 'b state" where
  "crawlLoop drv h flags inp cid i db s =
     (if i < length (crawlList inp) then
        (case crawlItem drv h flags inp cid i db s of
           (Returned u, db', s') \<Rightarrow> crawlLoop drv h flags inp cid (i + 1) db' s'
         | (Threw e, db', s') \<Rightarrow> (Threw e, db', s')
         | (TimedOut, db', s') \<Rightarrow> (TimedOut, db', s')
         | (Hung, db', s') \<Rightarrow> (Hung, db', s'))
      else (Returned (), markCompleted (clock s) cid db, s))"
  by pat_completeness auto
termination
  by (relation "measure (\<lambda>(drv, h, flags, inp, cid, i, db, s). length (crawlList inp) - i)") auto

declare crawlLoop.simps [simp del]

subsection \<open>\<^verbatim>\<open>crawl\<close>, from line 175\<close>

text \<open>Lines 247 to 392: the browser is launched, then the main loop runs.\<close>

definition launchAndCrawl ::
  "'b driver \<Rightarrow> host \<Rightarrow> crawler_flags \<Rightarrow> crawl_input \<Rightarrow> nat \<Rightarrow> nat \<Rightarrow> crawl_db \<Rightarrow> 'b state
     \<Rightarrow> unit outcome \<times> crawl_db \<times> 'b state" where
  "launchAndCrawl drv h flags inp cid crawlListStartingIndex db s =
     (case andThen (await Launch (launch drv)) (\<lambda>_. await Version (version drv)) s of
        (Returned v, s1) \<Rightarrow> crawlLoop drv h flags inp cid crawlListStartingIndex db s1
      | (Threw e, s1) \<Rightarrow> (Threw e, db, s1)
      | (TimedOut, s1) \<Rightarrow> (TimedOut, db, s1)
      | (Hung, s1) \<Rightarrow> (Hung, db, s1))"

text \<open>
  \<^verbatim>\<open>crawl\<close> ends with \<^verbatim>\<open>process.exit(1)\<close> after a diagnostic, or its promise settles (or
  does not).
\<close>

datatype crawl_result = ProcessExit diagnostic | Settled "unit outcome"

definition crawl ::
  "'b driver \<Rightarrow> host \<Rightarrow> crawler_flags \<Rightarrow> crawl_input \<Rightarrow> crawl_db \<Rightarrow> 'b state
     \<Rightarrow> crawl_result \<times> crawl_db \<times> 'b state" where
  "crawl drv h flags inp db s =
     (case validateCrawlList h inp of
        Some d \<Rightarrow> (ProcessExit d, db, s)
      | None \<Rightarrow>
          (case resolveRun h flags inp (clock s) db of
             Exits d \<Rightarrow> (ProcessExit d, db, s)
           | Rejects e \<Rightarrow> (Settled (Threw e), db, s)
           | Proceeds cid crawlListStartingIndex db' \<Rightarrow>
               (case launchAndCrawl drv h flags inp cid crawlListStartingIndex db' s of
                  (r, db'', s') \<Rightarrow> (Settled r, db'', s'))))"

subsection \<open>Concrete hosts, browsers and inputs\<close>

text \<open>A host whose URL parser accepts four addresses.\<close>

definition hostA :: host where
  "hostA =
     \<lparr>urlOrigin = (\<lambda>u. if u = ''https://a.example/'' then Some ''https://a.example''
                        else if u = ''https://b.example/'' then Some ''https://b.example''
                        else if u = ''https://a.example/x.js'' then Some ''https://a.example''
                        else if u = ''https://cdn.example/y.js'' then Some ''https://cdn.example''
                        else None),
      hostname = ''crawler-1'',
      publicIp = Some ''203.0.113.7''\<rparr>"

text \<open>
  A browser whose state counts the calls of the subpage explorer. Navigation replies as
  \<open>nav\<close> says for each address, the explorer finds what \<open>found\<close> says at each attempt, the
  page never scrolls and its content is \<open>height\<close> units high; every draw of
  \<^verbatim>\<open>Math.random()\<close> is one half, and \<^verbatim>\<open>page.url()\<close> is always \<^verbatim>\<open>about:blank\<close>.
\<close>

definition scriptedBrowser ::
  "(string \<Rightarrow> unit reply) \<Rightarrow> (nat \<Rightarrow> string option) \<Rightarrow> real \<Rightarrow> nat driver" where
  "scriptedBrowser nav found height =
     \<lparr>launch = (\<lambda>b. (Resolves () 1000, b)),
      version = (\<lambda>b. (Resolves ''Chrome'' 1, b)),
      newPage = (\<lambda>b. (Resolves 1 10, b)),
      closePage = (\<lambda>page b. (Resolves () 10, b)),
      setRequestInterception = (\<lambda>page enabled b. (Resolves () 1, b)),
      goto = (\<lambda>page u limit b. (nav u, b)),
      removeCookieBanners = (\<lambda>page b. (Resolves () 5, b)),
      keyboardPress = (\<lambda>page key b. (Resolves () 1, b)),
      evaluate = (\<lambda>page expr b.
                    (Resolves (if expr = ''document.body.scrollHeight'' then height
                               else if expr = ''window.innerHeight'' then 768 else 0) 1, b)),
      mouseMove = (\<lambda>page x y b. (Resolves () 1, b)),
      mouseWheel = (\<lambda>page dy b. (Resolves () 1, b)),
      scrapePage = (\<lambda>page pageId ty ad b. (Resolves () 100, b)),
      scrapeAdsOnPage = (\<lambda>page u ty pageId b. (Resolves () 100, b)),
      findArticle = (\<lambda>page b. (Resolves None 1, b)),
      findHealthRelatedPagesWithAds = (\<lambda>page b. (Resolves (found b) 1, Suc b)),
      pageUrl = (\<lambda>page b. ''about:blank''),
      random = (\<lambda>b. (1 / 2, b)),
      intercepted = (\<lambda>page b. [])\<rparr>"

definition flagsA :: crawler_flags where
  "flagsA =
     \<lparr>jobId = None, crawlName = Some ''R'', resumeIfAble = True, profileId = None,
      profileDir = None, url_flag = None,
      crawlOptions = \<lparr>findAndCrawlPageWithAds = 0, findAndCrawlArticlePage = False,
                      refreshPage = False\<rparr>,
      scrapeOptions = \<lparr>scrapeSite = False, scrapeAds = False,
                       captureThirdPartyRequests_flag = True\<rparr>\<rparr>"

definition inputA :: crawl_input where
  "inputA =
     \<lparr>crawlListFile = ''/data/list.txt'',
      crawlList = [''https://a.example/'', ''https://b.example/''],
      crawlListAdIds = [], isAdUrlCrawl = False\<rparr>"

text \<open>A run named \<open>R\<close> over \<^verbatim>\<open>list.txt\<close>, of two targets, stopped after the first.\<close>

definition runR :: crawl_row where
  "runR =
     \<lparr>row_id = 7, job_id = None, name = Some ''R'', start_time = 0, completed = False,
      completed_time = None, crawl_list = Some ''/old/list.txt'',
      crawl_list_current_index = 1, crawl_list_length = 2, profile_id = None,
      profile_dir = None, crawler_hostname = ''crawler-1'', crawler_ip = None\<rparr>"

definition dbR :: crawl_db where
  "dbR = \<lparr>crawl_tbl = [runR], next_crawl_id = 8\<rparr>"

definition state0 :: "nat state" where
  "state0 =
     \<lparr>clock = 0, deadline = None, trace = [], page_tbl = [], next_page_id = 1,
      request_tbl = [], seedPage = 0, browser = 0\<rparr>"

subsection \<open>Notions used in the statements and proofs\<close>

text \<open>The magnitudes of the wheel scrolls among some calls.\<close>

fun wheelDeltas :: "event list \<Rightarrow> real list" where
  "wheelDeltas [] = []"
| "wheelDeltas (MouseWheel page d # es) = d # wheelDeltas es"
| "wheelDeltas (e # es) = wheelDeltas es"

fun isWheel :: "event \<Rightarrow> bool" where
  "isWheel (MouseWheel page d) = True"
| "isWheel e = False"

text \<open>Every run of \<open>m\<close> relates the state before to the state after by \<open>R\<close>.\<close>

definition keeps :: "('s \<Rightarrow> 's \<Rightarrow> bool) \<Rightarrow> ('s \<Rightarrow> 'a outcome \<times> 's) \<Rightarrow> bool" where
  "keeps R m = (\<forall>s r s'. m s = (r, s') \<longrightarrow> R s s')"

text \<open>
  The calls made between two states: at most \<open>n\<close> of them are counted by \<open>c\<close>, and each
  satisfies \<open>P\<close>.
\<close>

definition emits ::
  "(event \<Rightarrow> bool) \<Rightarrow> (event \<Rightarrow> bool) \<Rightarrow> nat \<Rightarrow> 'b state \<Rightarrow> 'b state \<Rightarrow> bool" where
  "emits c P n s s' =
     (\<exists>evs. trace s' = trace s @ evs \<and> length (filter c evs) \<le> n \<and> (\<forall>e \<in> set evs. P e))"

definition wheelOk :: "bool \<Rightarrow> event \<Rightarrow> bool" where
  "wheelOk H e = (case e of MouseWheel page d \<Rightarrow> H \<longrightarrow> 200 \<le> d \<and> d \<le> 400 | _ \<Rightarrow> True)"

text \<open>A request seen while the tab is at \<^verbatim>\<open>https://a.example/\<close>.\<close>

definition requestTo :: "string \<Rightarrow> bool \<Rightarrow> http_request" where
  "requestTo u nav =
     \<lparr>request_url = u, isNavigationRequest = nav, inMainFrame = nav,
      resourceType = (if nav then ''document'' else ''script''),
      page_url_then = ''https://a.example/'', seen_at = 5\<rparr>"

text \<open>Three pages with ads are asked for; the explorer finds one, then none.\<close>

definition flags3 :: crawler_flags where
  "flags3 = flagsA\<lparr>crawlOptions := \<lparr>findAndCrawlPageWithAds = 3, findAndCrawlArticlePage = False,
                      refreshPage = False\<rparr>\<rparr>"

definition browser3 :: "nat driver" where
  "browser3 = scriptedBrowser (\<lambda>u. Resolves () 2000)
            (\<lambda>k. if k = 0 then Some ''https://b.example/'' else None) 768"

text \<open>The calls of the explorer for pages with ads.\<close>

fun isFindAds :: "event \<Rightarrow> bool" where
  "isFindAds (FindHealthRelatedPagesWithAds page) = True"
| "isFindAds e = False"

text \<open>The firings of timers, and the calls proper.\<close>

fun isTimeoutFired :: "event \<Rightarrow> bool" where
  "isTimeoutFired (TimeoutFired msg) = True"
| "isTimeoutFired e = False"

definition isCall :: "event \<Rightarrow> bool" where
  "isCall e = (\<not> isTimeoutFired e)"

text \<open>The rows of the \<^verbatim>\<open>page\<close> table are the same, as far as \<open>f\<close> sees them.\<close>

definition pagesKept :: "(page_row \<Rightarrow> 'k) \<Rightarrow> 'b state \<Rightarrow> 'b state \<Rightarrow> bool" where
  "pagesKept f s s' = (map f (page_tbl s') = map f (page_tbl s))"

text \<open>A browser in which every navigation fails after 300 ms.\<close>

definition browserNavFails :: "nat driver" where
  "browserNavFails =
     scriptedBrowser (\<lambda>u. RejectsWith (Error ''net::ERR_NAME_NOT_RESOLVED'') 300) (\<lambda>k. None) 768"

text \<open>
  A browser in which the navigation to \<^verbatim>\<open>https://a.example/\<close> never settles, and a table
  with one run that has not started.
\<close>

definition browserHangsOnA :: "nat driver" where
  "browserHangsOnA =
     scriptedBrowser (\<lambda>u. if u = ''https://a.example/'' then Never else Resolves () 2000)
       (\<lambda>k. None) 768"

definition db0 :: crawl_db where
  "db0 = \<lparr>crawl_tbl = [runR\<lparr>crawl_list_current_index := 0\<rparr>], next_crawl_id = 8\<rparr>"

text \<open>
  What identifies a page visit (the run, the requested address, the reload counter), and
  the rows added to the \<^verbatim>\<open>page\<close> table between two states, as \<open>f\<close> sees them.
\<close>

definition visitOf :: "page_row \<Rightarrow> nat \<times> string \<times> nat" where
  "visitOf r = (page_crawl_id r, original_url r, reload r)"

definition pagesAdded ::
  "(page_row \<Rightarrow> 'k) \<Rightarrow> ('k list \<Rightarrow> bool) \<Rightarrow> 'b state \<Rightarrow> 'b state \<Rightarrow> bool" where
  "pagesAdded f Q s s' = (\<exists>ks. map f (page_tbl s') = map f (page_tbl s) @ ks \<and> Q ks)"

definition anyRows :: "(nat \<times> string \<times> nat) list \<Rightarrow> bool" where
  "anyRows ks = True"

definition startsWith :: "'k \<Rightarrow> 'k list \<Rightarrow> bool" where
  "startsWith k ks = (\<exists>more. ks = k # more)"

text \<open>A browser in which every call succeeds.\<close>

definition browserOk :: "nat driver" where
  "browserOk = scriptedBrowser (\<lambda>u. Resolves () 2000) (\<lambda>k. None) 768"

text \<open>
  The pointer moves among some calls: the loop of \<^verbatim>\<open>scrollDownPage\<close> makes one at the
  start of each iteration (line 567), and nowhere else.
\<close>

fun isMove :: "event \<Rightarrow> bool" where
  "isMove (MouseMove page x y) = True"
| "isMove e = False"

text \<open>
  A browser in which every call succeeds and the page is 5000 units high with a viewport
  of 768, its scroll position always reported as 0: the bottom is never reached.
\<close>

definition browserTall :: "nat driver" where
  "browserTall = scriptedBrowser (\<lambda>u. Resolves () 2000) (\<lambda>k. None) 5000"

text \<open>
  Tables with two runs of the name \<open>R\<close>. In the first, run 7 (\<open>runR\<close>, not completed, at
  index 1) is followed by a completed run 8: the record that a crawl of \<open>inputA\<close> without
  resumption inserts and completes, starting from \<open>dbR\<close>.
\<close>

definition runDoneSecond :: crawl_row where
  "runDoneSecond =
     \<lparr>row_id = 8, job_id = None, name = Some ''R'', start_time = 0, completed = True,
      completed_time = Some 25041, crawl_list = Some ''/data/list.txt'',
      crawl_list_current_index = 2, crawl_list_length = 2, profile_id = None,
      profile_dir = None, crawler_hostname = ''crawler-1'',
      crawler_ip = Some ''203.0.113.7''\<rparr>"

definition dbResumableFirst :: crawl_db where
  "dbResumableFirst = \<lparr>crawl_tbl = [runR, runDoneSecond], next_crawl_id = 9\<rparr>"

text \<open>
  In the second, run 7 is completed, and run 8 is the record that \<^verbatim>\<open>createCrawlEntry\<close>
  inserts at time 50 for the list of \<open>inputA\<close> on \<open>hostA\<close>: not completed, at index 0.
\<close>

definition runDoneFirst :: crawl_row where
  "runDoneFirst =
     \<lparr>row_id = 7, job_id = None, name = Some ''R'', start_time = 0, completed = True,
      completed_time = Some 40, crawl_list = Some ''/data/list.txt'',
      crawl_list_current_index = 2, crawl_list_length = 2, profile_id = None,
      profile_dir = None, crawler_hostname = ''crawler-1'', crawler_ip = None\<rparr>"

definition dbDone :: crawl_db where
  "dbDone = \<lparr>crawl_tbl = [runDoneFirst], next_crawl_id = 8\<rparr>"

definition runNew :: crawl_row where
  "runNew =
     \<lparr>row_id = 8, job_id = None, name = Some ''R'', start_time = 50, completed = False,
      completed_time = None, crawl_list = Some ''/data/list.txt'',
      crawl_list_current_index = 0, crawl_list_length = 2, profile_id = None,
      profile_dir = None, crawler_hostname = ''crawler-1'',
      crawler_ip = Some ''203.0.113.7''\<rparr>"

definition dbDoneThenNew :: crawl_db where
  "dbDoneThenNew = \<lparr>crawl_tbl = [runDoneFirst, runNew], next_crawl_id = 9\<rparr>"

section \<open>Properties\<close>

subsection \<open>Validation of the crawl list\<close>

lemma validateLoop_line:
  "validateLoop h file i us = Some d \<Longrightarrow> \<exists>u. d = InvalidUrl file i u"
  by (induction us) (auto split: option.splits)

lemma validate_inputA: "validateCrawlList hostA inputA = None"
  by (simp add: validateCrawlList_def hostA_def inputA_def)

text \<open>
  C9. The crawl list is validated before a run record is created or the browser launched,
  and the first invalid entry ends the process with a diagnostic that names the list file
  and the line of that entry. The code misses the second part: the counter of line 176 is
  never incremented, so the diagnostic says line 1 whatever the position of the entry.
  Here the invalid entry is the second line of \<^verbatim>\<open>list.txt\<close>, and the diagnostic names
  line 1.
\<close>

theorem invalid_url_always_reported_at_line_1:
  "validateCrawlList hostA
     \<lparr>crawlListFile = ''list.txt'',
      crawlList = [''https://a.example/'', ''not a url''],
      crawlListAdIds = [], isAdUrlCrawl = False\<rparr>
   = Some (InvalidUrl ''list.txt'' 1 ''not a url'')"
  by (simp add: validateCrawlList_def hostA_def)

subsection \<open>Creating or resuming the run\<close>

text \<open>
  C3. With a crawl name and resumption requested, the code looks at the first row that
  the query by name returns (\<^verbatim>\<open>prevCrawl.rows[0]\<close>, lines 218 to 233), and at no other.
  When that row has a list file whose basename differs from that of the current list file,
  or its list length differs from the current one, or it is completed, \<^verbatim>\<open>crawl\<close> ends in
  \<^verbatim>\<open>process.exit\<close> with a diagnostic, and nothing has happened before it: the \<^verbatim>\<open>crawl\<close>
  table, the \<^verbatim>\<open>page\<close> table and the list of calls made to the browser are what they
  were. (Read for any prior run of that name, the statement fails: see the end of the
  last subsection.)
\<close>

theorem resume_rejected_before_launch:
  assumes "crawlName flags = Some n" and "n \<noteq> []" and "resumeIfAble flags"
    and "selectByName n db = prev # others"
    and "crawl_list prev = Some f"
    and "basename f \<noteq> basename (crawlListFile inp)
         \<or> crawl_list_length prev \<noteq> length (crawlList inp)
         \<or> completed prev"
  shows "\<exists>d. crawl drv h flags inp db s = (ProcessExit d, db, s)"
proof (cases "validateCrawlList h inp")
  case (Some d)
  then show ?thesis by (simp add: crawl_def)
next
  case None
  have "\<exists>d. resolveRun h flags inp (clock s) db = Exits d"
    using assms by (auto simp add: resolveRun_def Let_def)
  with None show ?thesis by (auto simp add: crawl_def)
qed

theorem resume_rejected_before_launch_witness:
  "selectByName ''R'' dbResumableFirst = [runR, runDoneSecond]
   \<and> selectByName ''R'' dbDoneThenNew = [runDoneFirst, runNew]
   \<and> basename ''/old/list.txt''
       \<noteq> basename (crawlListFile (inputA\<lparr>crawlListFile := ''/data/other.txt''\<rparr>))
   \<and> (\<exists>d. crawl browserOk hostA flagsA (inputA\<lparr>crawlListFile := ''/data/other.txt''\<rparr>)
              dbResumableFirst state0
            = (ProcessExit d, dbResumableFirst, state0))
   \<and> crawl_list_length runR \<noteq> length (crawlList (inputA\<lparr>crawlList := [''https://a.example/'']\<rparr>))
   \<and> (\<exists>d. crawl browserOk hostA flagsA (inputA\<lparr>crawlList := [''https://a.example/'']\<rparr>)
              dbResumableFirst state0
            = (ProcessExit d, dbResumableFirst, state0))
   \<and> completed runDoneFirst
   \<and> (\<exists>d. crawl browserOk hostA flagsA inputA dbDoneThenNew state0
            = (ProcessExit d, dbDoneThenNew, state0))"
proof -
  have sel: "selectByName ''R'' dbResumableFirst = runR # [runDoneSecond]"
    by (simp add: selectByName_def dbResumableFirst_def runR_def runDoneSecond_def)
  have sel': "selectByName ''R'' dbDoneThenNew = runDoneFirst # [runNew]"
    by (simp add: selectByName_def dbDoneThenNew_def runDoneFirst_def runNew_def)
  have fl: "crawlName flagsA = Some ''R''" "''R'' \<noteq> []" "resumeIfAble flagsA"
    by (simp_all add: flagsA_def)
  have cl: "crawl_list runR = Some ''/old/list.txt''"
      "crawl_list runDoneFirst = Some ''/data/list.txt''"
    by (simp_all add: runR_def runDoneFirst_def)
  have bn: "basename ''/old/list.txt''
              \<noteq> basename (crawlListFile (inputA\<lparr>crawlListFile := ''/data/other.txt''\<rparr>))"
    by (simp add: basename_def)
  have ln: "crawl_list_length runR
              \<noteq> length (crawlList (inputA\<lparr>crawlList := [''https://a.example/'']\<rparr>))"
    by (simp add: runR_def)
  have dn: "completed runDoneFirst" by (simp add: runDoneFirst_def)
  have a: "\<exists>d. crawl browserOk hostA flagsA (inputA\<lparr>crawlListFile := ''/data/other.txt''\<rparr>)
              dbResumableFirst state0
            = (ProcessExit d, dbResumableFirst, state0)"
    using bn by (intro resume_rejected_before_launch [OF fl sel cl(1)]) simp
  have b: "\<exists>d. crawl browserOk hostA flagsA (inputA\<lparr>crawlList := [''https://a.example/'']\<rparr>)
              dbResumableFirst state0
            = (ProcessExit d, dbResumableFirst, state0)"
    using ln by (intro resume_rejected_before_launch [OF fl sel cl(1)]) simp
  have c: "\<exists>d. crawl browserOk hostA flagsA inputA dbDoneThenNew state0
            = (ProcessExit d, dbDoneThenNew, state0)"
    using dn by (intro resume_rejected_before_launch [OF fl sel' cl(2)]) simp
  from sel sel' bn ln dn a b c show ?thesis by simp
qed

text \<open>
  C10. With a crawl name, a prior run of that name, and resumption not requested, the
  engine does not exit: it inserts a new run record with the same name and current index
  0, next to the prior rows (so the name now selects one row more), and the main loop
  starts at index 0 under the new record's id.
\<close>

theorem same_name_without_resume_inserts_new_run:
  assumes "crawlName flags = Some n" and "n \<noteq> []" and "\<not> resumeIfAble flags"
    and "selectByName n db \<noteq> []"
    and "validateCrawlList h inp = None"
  shows "\<exists>row. name row = Some n \<and> crawl_list_current_index row = 0 \<and> \<not> completed row
           \<and> row_id row = next_crawl_id db
           \<and> resolveRun h flags inp (clock s) db
               = Proceeds (next_crawl_id db) 0
                   (db\<lparr>crawl_tbl := crawl_tbl db @ [row],
                       next_crawl_id := Suc (next_crawl_id db)\<rparr>)
           \<and> selectByName n (db\<lparr>crawl_tbl := crawl_tbl db @ [row],
                                 next_crawl_id := Suc (next_crawl_id db)\<rparr>)
               = selectByName n db @ [row]
           \<and> crawl drv h flags inp db s
               = (case launchAndCrawl drv h flags inp (next_crawl_id db) 0
                         (db\<lparr>crawl_tbl := crawl_tbl db @ [row],
                             next_crawl_id := Suc (next_crawl_id db)\<rparr>) s
                  of (r, db', s') \<Rightarrow> (Settled r, db', s'))"
proof -
  let ?row = "\<lparr>row_id = next_crawl_id db, job_id = jobId flags, name = crawlName flags,
               start_time = clock s, completed = False, completed_time = None,
               crawl_list = (if crawlListFile inp \<noteq> [] then Some (crawlListFile inp)
                             else url_flag flags),
               crawl_list_current_index = 0, crawl_list_length = length (crawlList inp),
               profile_id = profileId flags, profile_dir = profileDir flags,
               crawler_hostname = hostname h, crawler_ip = publicIp h\<rparr>"
  have r: "resolveRun h flags inp (clock s) db
             = Proceeds (next_crawl_id db) 0
                 (db\<lparr>crawl_tbl := crawl_tbl db @ [?row],
                     next_crawl_id := Suc (next_crawl_id db)\<rparr>)"
    using assms(1-4) by (simp add: resolveRun_def createCrawlEntry_def insertCrawl_def)
  show ?thesis
    apply (rule exI [of _ ?row])
    using assms r by (simp add: selectByName_def crawl_def)
qed

theorem same_name_without_resume_inserts_new_run_witness:
  "selectByName ''R'' dbR \<noteq> []
   \<and> (\<exists>row. name row = Some ''R'' \<and> crawl_list_current_index row = 0 \<and> row_id row = 8
         \<and> resolveRun hostA (flagsA\<lparr>resumeIfAble := False\<rparr>) inputA (clock state0) dbR
             = Proceeds 8 0 (dbR\<lparr>crawl_tbl := crawl_tbl dbR @ [row], next_crawl_id := 9\<rparr>)
         \<and> selectByName ''R'' (dbR\<lparr>crawl_tbl := crawl_tbl dbR @ [row], next_crawl_id := 9\<rparr>)
             = [runR, row])"
proof -
  have sel: "selectByName ''R'' dbR = [runR]"
    by (simp add: selectByName_def dbR_def runR_def)
  have nx: "next_crawl_id dbR = 8" by (simp add: dbR_def)
  from same_name_without_resume_inserts_new_run
         [of "flagsA\<lparr>resumeIfAble := False\<rparr>" "''R''" dbR hostA inputA state0
             "scriptedBrowser (\<lambda>u. Resolves () 2000) (\<lambda>k. None) 768"]
       sel validate_inputA
  obtain row where "name row = Some ''R''" "crawl_list_current_index row = 0"
      "row_id row = next_crawl_id dbR"
      "resolveRun hostA (flagsA\<lparr>resumeIfAble := False\<rparr>) inputA (clock state0) dbR
         = Proceeds (next_crawl_id dbR) 0
             (dbR\<lparr>crawl_tbl := crawl_tbl dbR @ [row], next_crawl_id := Suc (next_crawl_id dbR)\<rparr>)"
      "selectByName ''R'' (dbR\<lparr>crawl_tbl := crawl_tbl dbR @ [row],
                                next_crawl_id := Suc (next_crawl_id dbR)\<rparr>)
         = selectByName ''R'' dbR @ [row]"
    by (auto simp add: flagsA_def)
  then show ?thesis using sel nx by auto
qed

subsection \<open>The request handler\<close>

lemma handleAll_append:
  "handleAll h flags cid rs buf
     = buf @ map (\<lambda>r. \<lparr>timestamp = seen_at r, request_job_id = jobId flags,
                        request_crawl_id = cid, parent_page = -1,
                        initiator = page_url_then r, target_url = request_url r,
                        resource_type = resourceType r\<rparr>)
               (filter (\<lambda>r. captureThirdPartyRequests_flag (scrapeOptions flags)
                            \<and> \<not> (isNavigationRequest r \<and> inMainFrame r)
                            \<and> (\<exists>a b. urlOrigin h (request_url r) = Some a
                                     \<and> urlOrigin h (page_url_then r) = Some b \<and> a \<noteq> b)) rs)"
  by (induction rs arbitrary: buf)
     (auto simp add: captureThirdPartyRequests_def split: option.splits)

text \<open>
  C5. For one request handed to the handler: the top-level navigation request of the main
  frame leaves the buffer as it is; so does a request whose origin is that of the tab's
  current address; any other request whose origin differs from the tab's, with capture
  enabled, is appended to the buffer once, with its address, its resource type and the
  owning page \<open>-1\<close>; and in every branch, the error branch included, the handler lets the
  request continue exactly once. Over a sequence of requests, the buffer receives one
  entry for each cross-origin request that is not the main-frame navigation, in order,
  and nothing else.
\<close>

theorem request_filter_buffers_cross_origin_once:
  "(isNavigationRequest rq \<and> inMainFrame rq
      \<longrightarrow> fst (captureThirdPartyRequests h flags cid rq buf) = buf)
   \<and> (urlOrigin h (request_url rq) = urlOrigin h (page_url_then rq)
      \<longrightarrow> fst (captureThirdPartyRequests h flags cid rq buf) = buf)
   \<and> (captureThirdPartyRequests_flag (scrapeOptions flags)
        \<and> \<not> (isNavigationRequest rq \<and> inMainFrame rq)
        \<and> urlOrigin h (request_url rq) = Some a \<and> urlOrigin h (page_url_then rq) = Some b
        \<and> a \<noteq> b
      \<longrightarrow> fst (captureThirdPartyRequests h flags cid rq buf)
            = buf @ [\<lparr>timestamp = seen_at rq, request_job_id = jobId flags,
                       request_crawl_id = cid, parent_page = -1,
                       initiator = page_url_then rq, target_url = request_url rq,
                       resource_type = resourceType rq\<rparr>])
   \<and> filter (\<lambda>x. x = Continue) (snd (captureThirdPartyRequests h flags cid rq buf)) = [Continue]
   \<and> handleAll h flags cid rs buf
       = buf @ map (\<lambda>r. \<lparr>timestamp = seen_at r, request_job_id = jobId flags,
                          request_crawl_id = cid, parent_page = -1,
                          initiator = page_url_then r, target_url = request_url r,
                          resource_type = resourceType r\<rparr>)
                 (filter (\<lambda>r. captureThirdPartyRequests_flag (scrapeOptions flags)
                              \<and> \<not> (isNavigationRequest r \<and> inMainFrame r)
                              \<and> (\<exists>a b. urlOrigin h (request_url r) = Some a
                                       \<and> urlOrigin h (page_url_then r) = Some b \<and> a \<noteq> b)) rs)"
proof -
  have one: "filter (\<lambda>x. x = Continue) (snd (captureThirdPartyRequests h flags cid rq buf))
               = [Continue]"
    by (auto simp add: captureThirdPartyRequests_def split: option.splits)
  have buf: "fst (captureThirdPartyRequests h flags cid rq buf) = buf"
    if "(isNavigationRequest rq \<and> inMainFrame rq)
        \<or> urlOrigin h (request_url rq) = urlOrigin h (page_url_then rq)"
    using that by (auto simp add: captureThirdPartyRequests_def split: option.splits)
  have rec: "fst (captureThirdPartyRequests h flags cid rq buf)
            = buf @ [\<lparr>timestamp = seen_at rq, request_job_id = jobId flags,
                       request_crawl_id = cid, parent_page = -1,
                       initiator = page_url_then rq, target_url = request_url rq,
                       resource_type = resourceType rq\<rparr>]"
    if "captureThirdPartyRequests_flag (scrapeOptions flags)"
       "\<not> (isNavigationRequest rq \<and> inMainFrame rq)"
       "urlOrigin h (request_url rq) = Some a" "urlOrigin h (page_url_then rq) = Some b"
       "a \<noteq> b"
    using that by (auto simp add: captureThirdPartyRequests_def)
  show ?thesis using one buf rec handleAll_append [of h flags cid rs buf] by blast
qed

theorem request_filter_buffers_cross_origin_once_witness:
  "fst (captureThirdPartyRequests hostA flagsA 7 (requestTo ''https://a.example/'' True) []) = []
   \<and> fst (captureThirdPartyRequests hostA flagsA 7 (requestTo ''https://a.example/x.js'' False) [])
       = []
   \<and> fst (captureThirdPartyRequests hostA flagsA 7 (requestTo ''https://cdn.example/y.js'' False) [])
       = [\<lparr>timestamp = 5, request_job_id = None, request_crawl_id = 7, parent_page = -1,
           initiator = ''https://a.example/'', target_url = ''https://cdn.example/y.js'',
           resource_type = ''script''\<rparr>]
   \<and> handleAll hostA flagsA 7
        [requestTo ''https://a.example/'' True, requestTo ''https://a.example/x.js'' False,
         requestTo ''https://cdn.example/y.js'' False] []
       = [\<lparr>timestamp = 5, request_job_id = None, request_crawl_id = 7, parent_page = -1,
           initiator = ''https://a.example/'', target_url = ''https://cdn.example/y.js'',
           resource_type = ''script''\<rparr>]"
  using request_filter_buffers_cross_origin_once
          [of "requestTo ''https://a.example/'' True" hostA flagsA 7 "[]" "''''" "''''" "[]"]
        request_filter_buffers_cross_origin_once
          [of "requestTo ''https://a.example/x.js'' False" hostA flagsA 7 "[]" "''''" "''''" "[]"]
        request_filter_buffers_cross_origin_once
          [of "requestTo ''https://cdn.example/y.js'' False" hostA flagsA 7 "[]"
              "''https://cdn.example''" "''https://a.example''"
              "[requestTo ''https://a.example/'' True, requestTo ''https://a.example/x.js'' False,
                requestTo ''https://cdn.example/y.js'' False]"]
  by (simp add: requestTo_def hostA_def flagsA_def)

subsection \<open>Rules for sequenced code\<close>

lemma keepsI: "(\<And>s r s'. m s = (r, s') \<Longrightarrow> R s s') \<Longrightarrow> keeps R m"
  by (simp add: keeps_def)

lemma keepsD: "keeps R m \<Longrightarrow> m s = (r, s') \<Longrightarrow> R s s'"
  by (simp add: keeps_def)

lemma andThen_cases:
  assumes "andThen m f s = (r, s')"
  obtains (continues) a s1 where "m s = (Returned a, s1)" and "f a s1 = (r, s')"
        | (stops) x where "m s = (x, s')" and "\<forall>a. x \<noteq> Returned a"
  using assms by (auto simp add: andThen_def split: prod.splits outcome.splits)

lemma keeps_andThen:
  assumes m: "keeps R1 m"
    and f: "\<And>x s s1. m s = (Returned x, s1) \<Longrightarrow> keeps R2 (f x)"
    and comp: "\<And>s s1 s2. R1 s s1 \<Longrightarrow> R2 s1 s2 \<Longrightarrow> R s s2"
    and weak: "\<And>s s1. R1 s s1 \<Longrightarrow> R s s1"
  shows "keeps R (andThen m f)"
proof (rule keepsI)
  fix s r s'
  assume run: "andThen m f s = (r, s')"
  then show "R s s'"
  proof (cases rule: andThen_cases)
    case (continues a s1)
    from keepsD [OF m continues(1)] keepsD [OF f [OF continues(1)] continues(2)]
    show ?thesis by (rule comp)
  next
    case (stops x)
    from keepsD [OF m stops(1)] show ?thesis by (rule weak)
  qed
qed

lemma emits_trans: "emits c P a s s1 \<Longrightarrow> emits c P b s1 s2 \<Longrightarrow> emits c P (a + b) s s2"
  unfolding emits_def by (elim exE conjE, rule_tac x = "evs @ evsa" in exI) auto

lemma emits_weaken: "emits c P a s s1 \<Longrightarrow> a \<le> b \<Longrightarrow> emits c P b s s1"
  unfolding emits_def by (elim exE conjE, rule_tac x = evs in exI) auto

lemma emits_andThen:
  assumes "keeps (emits c P a) m"
    and "\<And>x s s1. m s = (Returned x, s1) \<Longrightarrow> keeps (emits c P b) (f x)"
  shows "keeps (emits c P (a + b)) (andThen m f)"
  using assms(1) assms(2)
  by (rule keeps_andThen) (auto intro: emits_trans emits_weaken)

lemma emits_mono: "keeps (emits c P a) m \<Longrightarrow> a \<le> b \<Longrightarrow> keeps (emits c P b) m"
  by (auto simp add: keeps_def intro: emits_weaken)

lemma emits_ret: "keeps (emits c P 0) (ret a)"
  by (simp add: keeps_def ret_def emits_def)

lemma await_trace: "await ev call s = (r, s') \<Longrightarrow> trace s' = trace s @ [ev]"
  by (auto simp add: await_def Let_def split: prod.splits if_splits reply.splits)

lemma emits_await: "\<not> c ev \<Longrightarrow> P ev \<Longrightarrow> keeps (emits c P 0) (await ev call)"
  by (auto simp add: keeps_def emits_def dest!: await_trace)

lemma emits_await_counted: "P ev \<Longrightarrow> keeps (emits c P 1) (await ev call)"
  by (auto simp add: keeps_def emits_def dest!: await_trace)

lemma emits_sleep: "\<not> c (Sleep ms) \<Longrightarrow> P (Sleep ms) \<Longrightarrow> keeps (emits c P 0) (sleep ms)"
  unfolding sleep_def by (rule emits_await)

subsection \<open>Scrolling\<close>

lemma emits_randrange: "keeps (emits c P 0) (randrange drv low high)"
  by (auto simp add: keeps_def emits_def randrange_def split: prod.splits)

lemma randrange_value:
  "randrange drv low high s = (Returned v, s') \<Longrightarrow>
     v = fst (random drv (browser s)) * (high - low) + low"
  by (auto simp add: randrange_def split: prod.splits)

lemma scrollLoop_emits:
  "keeps (emits isWheel (wheelOk (\<forall>b. 0 \<le> fst (random drv b) \<and> fst (random drv b) < 1)) (30 - i))
         (scrollLoop drv page ih sh sy i)"
proof (induction drv page ih sh sy i rule: scrollLoop.induct)
  case (1 drv page ih sh sy i)
  let ?H = "\<forall>b. 0 \<le> fst (random drv b) \<and> fst (random drv b) < 1"
  show ?case
  proof (cases "sy + ih < sh \<and> i < 30")
    case False
    have "scrollLoop drv page ih sh sy i = ret ()"
      by (subst scrollLoop.simps) (simp only: False if_False)
    then show ?thesis using emits_ret [of isWheel _ "()"] by (auto intro: emits_mono)
  next
    case True
    have ok: "wheelOk ?H (MouseWheel page v)"
      if "randrange drv 200 400 s = (Returned v, s1)" for v s s1
    proof -
      have v: "v = fst (random drv (browser s)) * 200 + 200"
        using randrange_value [OF that] by simp
      show ?thesis
        unfolding wheelOk_def
      proof (simp, intro impI)
        assume h: ?H
        then have "0 \<le> fst (random drv (browser s))" "fst (random drv (browser s)) < 1"
          by auto
        then show "200 \<le> v \<and> v \<le> 400" unfolding v by auto
      qed
    qed
    have body: "keeps (emits isWheel (wheelOk ?H) (0 + (0 + (0 + (0 + (1 + (0 + (0 + (30 - (i + 1))))))))))
                  (scrollLoop drv page ih sh sy i)"
      apply (subst scrollLoop.simps)
      apply (simp only: True if_True simp_thms)
      apply (rule emits_andThen, rule emits_randrange)
      apply (rule emits_andThen, rule emits_randrange)
      apply (rule emits_andThen, rule emits_randrange)
      apply (rule emits_andThen)
       apply (rule emits_await, simp, simp add: wheelOk_def)
      apply (rule emits_andThen)
       apply (rule emits_await_counted, erule ok)
      apply (rule emits_andThen)
       apply (rule emits_sleep, simp, simp add: wheelOk_def)
      apply (rule emits_andThen)
       apply (rule emits_await, simp, simp add: wheelOk_def)
      apply (rule "1.IH" [OF True])
      done
    from True have "0 + (0 + (0 + (0 + (1 + (0 + (0 + (30 - (i + 1))))))))  \<le> 30 - i" by arith
    with body show ?thesis by (rule emits_mono)
  qed
qed

lemma scrollDownPage_emits:
  "keeps (emits isWheel (wheelOk (\<forall>b. 0 \<le> fst (random drv b) \<and> fst (random drv b) < 1)) 30)
         (scrollDownPage drv page)"
proof -
  have "keeps (emits isWheel (wheelOk (\<forall>b. 0 \<le> fst (random drv b) \<and> fst (random drv b) < 1))
                 (0 + (0 + (0 + (30 - 0)))))
              (scrollDownPage drv page)"
    unfolding scrollDownPage_def
    apply (rule emits_andThen, rule emits_await, simp, simp add: wheelOk_def)
    apply (rule emits_andThen, rule emits_await, simp, simp add: wheelOk_def)
    apply (rule emits_andThen, rule emits_await, simp, simp add: wheelOk_def)
    apply (rule scrollLoop_emits)
    done
  then show ?thesis by simp
qed

lemma wheelDeltas_length: "length (wheelDeltas evs) = length (filter isWheel evs)"
  by (induction evs rule: wheelDeltas.induct) auto

lemma wheelDeltas_ok: "\<forall>e \<in> set evs. wheelOk H e \<Longrightarrow> H \<Longrightarrow> \<forall>d \<in> set (wheelDeltas evs). 200 \<le> d \<and> d \<le> 400"
  by (induction evs rule: wheelDeltas.induct) (auto simp add: wheelOk_def)

lemma andThen_randrange:
  "random drv (browser s) = (x, b) \<Longrightarrow>
     andThen (randrange drv lo hi) f s = f (x * (hi - lo) + lo) (s\<lparr>browser := b\<rparr>)"
  by (simp add: andThen_def randrange_def)

lemma scrollLoop_iteration:
  assumes "sy + ih < sh \<and> i < 30"
    and "random drv (browser s) = (x, b1)" and "random drv b1 = (y, b2)"
    and "random drv b2 = (z, b3)"
  shows "scrollLoop drv page ih sh sy i s
           = andThen (await (MouseMove page (x * 50 + 50) (y * 50 + 50))
                         (mouseMove drv page (x * 50 + 50) (y * 50 + 50))) (\<lambda>_.
             andThen (await (MouseWheel page (z * 200 + 200))
                         (mouseWheel drv page (z * 200 + 200))) (\<lambda>_.
             andThen (sleep 1000) (\<lambda>_.
             andThen (await (Evaluate page ''window.scrollY'')
                         (evaluate drv page ''window.scrollY'')) (\<lambda>scrollY'.
             scrollLoop drv page ih sh scrollY' (i + 1)))))
               (s\<lparr>browser := b3\<rparr>)"
  apply (subst scrollLoop.simps)
  apply (simp only: assms(1) if_True simp_thms)
  apply (subst andThen_randrange [of drv _ x b1])
   apply (simp add: assms)
  apply (subst andThen_randrange [of drv _ y b2])
   apply (simp add: assms)
  apply (subst andThen_randrange [of drv _ z b3])
   apply (simp add: assms)
  apply simp
  done

lemma scrollLoop_counts:
  "scrollLoop drv page ih sh sy i s = (r, s') \<Longrightarrow>
     \<exists>evs. trace s' = trace s @ evs
         \<and> length (filter isMove evs) \<le> 30 - i
         \<and> length (filter isWheel evs) \<le> length (filter isMove evs)
         \<and> length (filter isMove evs) \<le> length (filter isWheel evs) + 1
         \<and> (r = Returned () \<longrightarrow> length (filter isWheel evs) = length (filter isMove evs))"
proof (induction drv page ih sh sy i arbitrary: s r s' rule: scrollLoop.induct)
  case (1 drv page ih sh sy i)
  show ?case
  proof (cases "sy + ih < sh \<and> i < 30")
    case False
    have "scrollLoop drv page ih sh sy i = ret ()"
      by (subst scrollLoop.simps) (simp only: False if_False)
    with "1.prems" have "s' = s" by (simp add: ret_def)
    then show ?thesis by simp
  next
    case True
    then have i30: "i < 30" by simp
    obtain x b1 where d1: "random drv (browser s) = (x, b1)" by (cases "random drv (browser s)")
    obtain y b2 where d2: "random drv b1 = (y, b2)" by (cases "random drv b1")
    obtain z b3 where d3: "random drv b2 = (z, b3)" by (cases "random drv b2")
    let ?s3 = "s\<lparr>browser := b3\<rparr>"
    note run = "1.prems" [unfolded scrollLoop_iteration [OF True d1 d2 d3]]
    from run show ?thesis
    proof (cases rule: andThen_cases)
      case (stops a)
      then have "trace s' = trace s @ [MouseMove page (x * 50 + 50) (y * 50 + 50)]"
        by (auto dest: await_trace)
      moreover have "r \<noteq> Returned ()" using run stops
        by (auto simp add: andThen_def split: outcome.splits)
      ultimately show ?thesis using i30 by (intro exI [of _ "[MouseMove page (x * 50 + 50) (y * 50 + 50)]"]) simp
    next
      case (continues u s1)
      then have t1: "trace s1 = trace s @ [MouseMove page (x * 50 + 50) (y * 50 + 50)]"
        by (auto dest: await_trace)
      from continues(2) show ?thesis
      proof (cases rule: andThen_cases)
        case (stops a)
        then have "trace s' = trace s1 @ [MouseWheel page (z * 200 + 200)]"
          by (auto dest: await_trace)
        moreover have "r \<noteq> Returned ()" using continues(2) stops
          by (auto simp add: andThen_def split: outcome.splits)
        ultimately show ?thesis using i30 t1
          by (intro exI [of _ "[MouseMove page (x * 50 + 50) (y * 50 + 50),
                                MouseWheel page (z * 200 + 200)]"]) simp
      next
        case (continues u2 s2)
        then have t2: "trace s2 = trace s1 @ [MouseWheel page (z * 200 + 200)]"
          by (auto dest: await_trace)
        from continues(2) show ?thesis
        proof (cases rule: andThen_cases)
          case (stops a)
          then have "trace s' = trace s2 @ [Sleep 1000]"
            by (auto simp add: sleep_def dest: await_trace)
          moreover have "r \<noteq> Returned ()" using continues(2) stops
            by (auto simp add: andThen_def split: outcome.splits)
          ultimately show ?thesis using i30 t1 t2
            by (intro exI [of _ "[MouseMove page (x * 50 + 50) (y * 50 + 50),
                                  MouseWheel page (z * 200 + 200), Sleep 1000]"]) simp
        next
          case (continues u3 s3)
          then have t3: "trace s3 = trace s2 @ [Sleep 1000]"
            by (auto simp add: sleep_def dest: await_trace)
          from continues(2) show ?thesis
          proof (cases rule: andThen_cases)
            case (stops a)
            then have "trace s' = trace s3 @ [Evaluate page ''window.scrollY'']"
              by (auto dest: await_trace)
            moreover have "r \<noteq> Returned ()" using continues(2) stops
              by (auto simp add: andThen_def split: outcome.splits)
            ultimately show ?thesis using i30 t1 t2 t3
              by (intro exI [of _ "[MouseMove page (x * 50 + 50) (y * 50 + 50),
                                    MouseWheel page (z * 200 + 200), Sleep 1000,
                                    Evaluate page ''window.scrollY'']"]) simp
          next
            case (continues sy' s4)
            then have t4: "trace s4 = trace s3 @ [Evaluate page ''window.scrollY'']"
              by (auto dest: await_trace)
            from "1.IH" [OF True continues(2)]
            obtain evs where evs: "trace s' = trace s4 @ evs"
              "length (filter isMove evs) \<le> 30 - (i + 1)"
              "length (filter isWheel evs) \<le> length (filter isMove evs)"
              "length (filter isMove evs) \<le> length (filter isWheel evs) + 1"
              "r = Returned () \<longrightarrow> length (filter isWheel evs) = length (filter isMove evs)"
              by blast
            show ?thesis
              apply (rule exI [of _ "[MouseMove page (x * 50 + 50) (y * 50 + 50),
                                    MouseWheel page (z * 200 + 200), Sleep 1000,
                                    Evaluate page ''window.scrollY''] @ evs"])
              using i30 t1 t2 t3 t4 evs by simp
          qed
        qed
      qed
    qed
  qed
qed


lemma scrollLoop_trace_extends:
  assumes "scrollLoop drv page ih sh sy i s = (r, s')"
  shows "\<exists>rest. trace s' = trace s @ rest"
  using keepsD [OF scrollLoop_emits assms] unfolding emits_def by blast

lemma andThen_trace_extends:
  assumes "andThen m f s = (r, s')"
    and "\<And>x s1. m s = (x, s1) \<Longrightarrow> \<exists>rest. trace s1 = trace s @ rest"
    and "\<And>a s1. f a s1 = (r, s') \<Longrightarrow> \<exists>rest. trace s' = trace s1 @ rest"
  shows "\<exists>rest. trace s' = trace s @ rest"
  using assms(1)
proof (cases rule: andThen_cases)
  case (continues a s1)
  from assms(2) [OF continues(1)] assms(3) [OF continues(2)] show ?thesis by auto
next
  case (stops x)
  from assms(2) [OF stops(1)] show ?thesis .
qed

lemma scrollLoop_first_events:
  assumes cond: "sy + ih < sh \<and> i < 30"
    and d1: "random drv (browser s) = (x, b1)" and d2: "random drv b1 = (y, b2)"
    and d3: "random drv b2 = (z, b3)"
    and run: "scrollLoop drv page ih sh sy i s = (r, s')"
  shows "\<exists>rest. trace s' = trace s @ MouseMove page (x * 50 + 50) (y * 50 + 50) # rest
           \<and> ((\<exists>u s1. await (MouseMove page (x * 50 + 50) (y * 50 + 50))
                          (mouseMove drv page (x * 50 + 50) (y * 50 + 50))
                          (s\<lparr>browser := b3\<rparr>) = (Returned u, s1))
                \<longrightarrow> (\<exists>rest'. rest = MouseWheel page (z * 200 + 200) # rest'))"
proof -
  note run' = run [unfolded scrollLoop_iteration [OF cond d1 d2 d3]]
  from run' show ?thesis
  proof (cases rule: andThen_cases)
    case (stops a)
    then have "trace s' = trace s @ [MouseMove page (x * 50 + 50) (y * 50 + 50)]"
      by (auto dest: await_trace)
    with stops show ?thesis by auto
  next
    case (continues u s1)
    then have t1: "trace s1 = trace s @ [MouseMove page (x * 50 + 50) (y * 50 + 50)]"
      by (auto dest: await_trace)
    from continues(2) have "\<exists>rest'. trace s' = trace s1 @ MouseWheel page (z * 200 + 200) # rest'"
    proof (cases rule: andThen_cases)
      case (stops a)
      then show ?thesis by (auto dest: await_trace)
    next
      case (continues u2 s2)
      then have t2: "trace s2 = trace s1 @ [MouseWheel page (z * 200 + 200)]"
        by (auto dest: await_trace)
      from continues(2) have "\<exists>rest. trace s' = trace s2 @ rest"
        apply (rule andThen_trace_extends)
         apply (auto simp add: sleep_def dest: await_trace)[1]
        apply (erule andThen_trace_extends)
         apply (auto dest: await_trace)[1]
        apply (erule scrollLoop_trace_extends)
        done
      with t2 show ?thesis by auto
    qed
    with t1 show ?thesis by auto
  qed
qed

lemma scrollLoop_never_at_bottom:
  assumes mv: "\<forall>x y b. \<exists>dur b'. mouseMove drv page x y b = (Resolves () dur, b')"
    and wh: "\<forall>d b. \<exists>dur b'. mouseWheel drv page d b = (Resolves () dur, b')"
    and ev: "\<forall>b. \<exists>v dur b'. evaluate drv page ''window.scrollY'' b = (Resolves v dur, b')
                             \<and> v + ih < sh"
  shows "deadline t = None \<Longrightarrow> sy + ih < sh \<Longrightarrow> i \<le> 30 \<Longrightarrow>
     \<exists>t' evs. scrollLoop drv page ih sh sy i t = (Returned (), t') \<and> deadline t' = None
        \<and> trace t' = trace t @ evs
        \<and> length (filter isMove evs) = 30 - i \<and> length (wheelDeltas evs) = 30 - i
        \<and> ((\<forall>b. fst (random drv b) = c) \<longrightarrow> wheelDeltas evs = replicate (30 - i) (c * 200 + 200))"
proof (induction "30 - i" arbitrary: i sy t)
  case 0
  then have "scrollLoop drv page ih sh sy i = ret ()"
    by (subst scrollLoop.simps) simp
  with 0 show ?case by (simp add: ret_def)
next
  case (Suc n)
  then have cond: "sy + ih < sh \<and> i < 30" by simp
  obtain x b1 where d1: "random drv (browser t) = (x, b1)" by (cases "random drv (browser t)")
  obtain y b2 where d2: "random drv b1 = (y, b2)" by (cases "random drv b1")
  obtain z b3 where d3: "random drv b2 = (z, b3)" by (cases "random drv b2")
  let ?M = "MouseMove page (x * 50 + 50) (y * 50 + 50)"
  let ?W = "MouseWheel page (z * 200 + 200)"
  let ?E = "Evaluate page ''window.scrollY''"
  from mv obtain u1 c1 where m: "mouseMove drv page (x * 50 + 50) (y * 50 + 50) b3 = (Resolves () u1, c1)"
    by blast
  from wh obtain u2 c2 where w: "mouseWheel drv page (z * 200 + 200) c1 = (Resolves () u2, c2)"
    by blast
  from ev obtain v u3 c3 where e: "evaluate drv page ''window.scrollY'' c2 = (Resolves v u3, c3)"
    and v: "v + ih < sh" by blast
  define t1 where "t1 = t\<lparr>trace := trace t @ [?M], browser := c1, clock := clock t + u1\<rparr>"
  define t2 where "t2 = t1\<lparr>trace := trace t1 @ [?W], browser := c2, clock := clock t1 + u2\<rparr>"
  define t3 where "t3 = t2\<lparr>trace := trace t2 @ [Sleep 1000], clock := clock t2 + 1000\<rparr>"
  define t4 where "t4 = t3\<lparr>trace := trace t3 @ [?E], browser := c3, clock := clock t3 + u3\<rparr>"
  have a1: "await ?M (mouseMove drv page (x * 50 + 50) (y * 50 + 50)) (t\<lparr>browser := b3\<rparr>)
              = (Returned (), t1)"
    using Suc.prems(1) m by (simp add: await_def Let_def t1_def)
  have a2: "await ?W (mouseWheel drv page (z * 200 + 200)) t1 = (Returned (), t2)"
    using Suc.prems(1) w by (simp add: await_def Let_def t1_def t2_def)
  have a3: "sleep 1000 t2 = (Returned (), t3)"
    using Suc.prems(1) by (simp add: sleep_def await_def Let_def t1_def t2_def t3_def)
  have a4: "await ?E (evaluate drv page ''window.scrollY'') t3 = (Returned v, t4)"
    using Suc.prems(1) e by (simp add: await_def Let_def t1_def t2_def t3_def t4_def)
  have step: "scrollLoop drv page ih sh sy i t = scrollLoop drv page ih sh v (i + 1) t4"
    unfolding scrollLoop_iteration [OF cond d1 d2 d3]
    by (simp add: andThen_def a1 a2 a3 a4)
  have dl: "deadline t4 = None" using Suc.prems(1) by (simp add: t1_def t2_def t3_def t4_def)
  have tr: "trace t4 = trace t @ [?M, ?W, Sleep 1000, ?E]"
    by (simp add: t1_def t2_def t3_def t4_def)
  have n: "n = 30 - (i + 1)" using Suc.hyps(2) by simp
  have i: "i + 1 \<le> 30" using cond by simp
  from Suc.hyps(1) [OF n dl v i]
  obtain t' evs where IH: "scrollLoop drv page ih sh v (i + 1) t4 = (Returned (), t')"
    "deadline t' = None" "trace t' = trace t4 @ evs"
    "length (filter isMove evs) = 30 - (i + 1)" "length (wheelDeltas evs) = 30 - (i + 1)"
    "(\<forall>b. fst (random drv b) = c) \<longrightarrow> wheelDeltas evs = replicate (30 - (i + 1)) (c * 200 + 200)"
    by blast
  have zc: "(\<forall>b. fst (random drv b) = c) \<longrightarrow> z = c" using d3 by (auto dest: spec [of _ b2])
  have r: "replicate (30 - i) (c * 200 + 200) = (c * 200 + 200) # replicate (30 - (i + 1)) (c * 200 + 200)"
    using cond by (cases "30 - i") auto
  show ?case
    apply (rule exI [of _ t'], rule exI [of _ "[?M, ?W, Sleep 1000, ?E] @ evs"])
    using IH tr cond zc unfolding step r by auto
qed

text \<open>
  C7. The loop of \<^verbatim>\<open>scrollDownPage\<close> (lines 559 to 575), whatever the page does.

  \<^item> One run makes at most 30 iterations, counted by the pointer move that begins each of
    them, also when a call throws or does not return. The wheel scrolls are as many as
    the iterations, or one fewer when the last iteration was cut short (a call threw, did
    not return, or the timer fired); when the run returns normally they are as many. When
    \<^verbatim>\<open>Math.random()\<close> yields numbers from 0 up to, not including, 1, each wheel scroll is
    downward by an amount between 200 and 400. (Numbers are reals here; in floating point
    the sum can round up to 400 itself, which the bound allows.)

  \<^item> An iteration, entered when the bottom is not reached and fewer than 30 iterations
    were made, draws three numbers \<open>x\<close>, \<open>y\<close>, \<open>z\<close> from \<^verbatim>\<open>Math.random()\<close>, moves the
    pointer to \<open>(x * (100 - 50) + 50, y * (100 - 50) + 50)\<close> and, once that call has
    returned, issues the wheel scroll of magnitude \<open>z * (400 - 200) + 200\<close> as its next
    call.

  \<^item> When the page answers every call, no timer is pending and the scroll position it
    reports never reaches the bottom, the loop started at iteration \<open>j\<close> returns after
    exactly \<open>30 - j\<close> iterations with \<open>30 - j\<close> wheel scrolls; if every draw is \<open>c\<close>, each
    is of magnitude \<open>c * (400 - 200) + 200\<close>.

  \<^item> When the bottom is reached or 30 iterations were made, the loop returns at once and
    makes no call.
\<close>

theorem scroll_stops_within_30_iterations:
  "(scrollDownPage drv page s = (r, s') \<longrightarrow>
      (\<exists>evs. trace s' = trace s @ evs
         \<and> length (filter isMove evs) \<le> 30
         \<and> length (wheelDeltas evs) \<le> length (filter isMove evs)
         \<and> length (filter isMove evs) \<le> length (wheelDeltas evs) + 1
         \<and> (r = Returned () \<longrightarrow> length (wheelDeltas evs) = length (filter isMove evs))
         \<and> ((\<forall>b. 0 \<le> fst (random drv b) \<and> fst (random drv b) < 1)
              \<longrightarrow> (\<forall>d \<in> set (wheelDeltas evs). 200 \<le> d \<and> d \<le> 400))))
   \<and> (sy + ih < sh \<and> i < 30
        \<and> random drv (browser t) = (x, ka) \<and> random drv ka = (y, kb) \<and> random drv kb = (z, kc)
        \<and> scrollLoop drv page ih sh sy i t = (q, t') \<longrightarrow>
      (\<exists>rest. trace t' = trace t @ MouseMove page (x * (100 - 50) + 50) (y * (100 - 50) + 50) # rest
         \<and> ((\<exists>u t1. await (MouseMove page (x * (100 - 50) + 50) (y * (100 - 50) + 50))
                         (mouseMove drv page (x * (100 - 50) + 50) (y * (100 - 50) + 50))
                         (t\<lparr>browser := kc\<rparr>) = (Returned u, t1))
              \<longrightarrow> (\<exists>rest'. rest = MouseWheel page (z * (400 - 200) + 200) # rest'))))
   \<and> ((\<forall>a b k. \<exists>dur k'. mouseMove drv page a b k = (Resolves () dur, k'))
        \<and> (\<forall>d k. \<exists>dur k'. mouseWheel drv page d k = (Resolves () dur, k'))
        \<and> (\<forall>k. \<exists>v dur k'. evaluate drv page ''window.scrollY'' k = (Resolves v dur, k')
                           \<and> v + ih' < sh')
        \<and> deadline w = None \<and> sy' + ih' < sh' \<and> j \<le> 30 \<longrightarrow>
      (\<exists>w' evs. scrollLoop drv page ih' sh' sy' j w = (Returned (), w')
         \<and> trace w' = trace w @ evs
         \<and> length (filter isMove evs) = 30 - j \<and> length (wheelDeltas evs) = 30 - j
         \<and> ((\<forall>k. fst (random drv k) = c)
              \<longrightarrow> wheelDeltas evs = replicate (30 - j) (c * (400 - 200) + 200))))
   \<and> (sh'' \<le> sy'' + ih'' \<or> 30 \<le> n \<longrightarrow>
        scrollLoop drv page ih'' sh'' sy'' n st = (Returned (), st))"
proof -
  have A: "\<exists>evs. trace s' = trace s @ evs
         \<and> length (filter isMove evs) \<le> 30
         \<and> length (wheelDeltas evs) \<le> length (filter isMove evs)
         \<and> length (filter isMove evs) \<le> length (wheelDeltas evs) + 1
         \<and> (r = Returned () \<longrightarrow> length (wheelDeltas evs) = length (filter isMove evs))
         \<and> ((\<forall>b. 0 \<le> fst (random drv b) \<and> fst (random drv b) < 1)
              \<longrightarrow> (\<forall>d \<in> set (wheelDeltas evs). 200 \<le> d \<and> d \<le> 400))"
    if run: "scrollDownPage drv page s = (r, s')"
  proof -
    from keepsD [OF scrollDownPage_emits run]
    obtain evs where evs: "trace s' = trace s @ evs"
      "\<forall>e \<in> set evs. wheelOk (\<forall>b. 0 \<le> fst (random drv b) \<and> fst (random drv b) < 1) e"
      unfolding emits_def by blast
    have cnt: "length (filter isMove evs) \<le> 30
         \<and> length (filter isWheel evs) \<le> length (filter isMove evs)
         \<and> length (filter isMove evs) \<le> length (filter isWheel evs) + 1
         \<and> (r = Returned () \<longrightarrow> length (filter isWheel evs) = length (filter isMove evs))"
      using run evs(1) unfolding scrollDownPage_def
      apply -
      apply (erule andThen_cases)
       apply (erule andThen_cases)
        apply (erule andThen_cases)
         apply (drule await_trace)+
         apply (drule scrollLoop_counts)
         apply auto[1]
        apply (drule await_trace)+
        apply auto[1]
       apply (drule await_trace)+
       apply auto[1]
      apply (drule await_trace)+
      apply auto[1]
      done
    show ?thesis
      apply (rule exI [of _ evs])
      using evs cnt wheelDeltas_ok [OF evs(2)] by (simp add: wheelDeltas_length)
  qed
  have B: "\<exists>rest. trace t' = trace t @ MouseMove page (x * (100 - 50) + 50) (y * (100 - 50) + 50) # rest
         \<and> ((\<exists>u t1. await (MouseMove page (x * (100 - 50) + 50) (y * (100 - 50) + 50))
                         (mouseMove drv page (x * (100 - 50) + 50) (y * (100 - 50) + 50))
                         (t\<lparr>browser := kc\<rparr>) = (Returned u, t1))
              \<longrightarrow> (\<exists>rest'. rest = MouseWheel page (z * (400 - 200) + 200) # rest'))"
    if "sy + ih < sh \<and> i < 30" "random drv (browser t) = (x, ka)" "random drv ka = (y, kb)"
       "random drv kb = (z, kc)" "scrollLoop drv page ih sh sy i t = (q, t')"
    using scrollLoop_first_events [OF that] by simp
  have C: "\<exists>w' evs. scrollLoop drv page ih' sh' sy' j w = (Returned (), w')
         \<and> trace w' = trace w @ evs
         \<and> length (filter isMove evs) = 30 - j \<and> length (wheelDeltas evs) = 30 - j
         \<and> ((\<forall>k. fst (random drv k) = c)
              \<longrightarrow> wheelDeltas evs = replicate (30 - j) (c * (400 - 200) + 200))"
    if "\<forall>a b k. \<exists>dur k'. mouseMove drv page a b k = (Resolves () dur, k')"
       "\<forall>d k. \<exists>dur k'. mouseWheel drv page d k = (Resolves () dur, k')"
       "\<forall>k. \<exists>v dur k'. evaluate drv page ''window.scrollY'' k = (Resolves v dur, k') \<and> v + ih' < sh'"
       "deadline w = None" "sy' + ih' < sh'" "j \<le> 30"
    using scrollLoop_never_at_bottom [OF that, of c] by simp blast
  have D: "scrollLoop drv page ih'' sh'' sy'' n st = (Returned (), st)"
    if "sh'' \<le> sy'' + ih'' \<or> 30 \<le> n"
    using that by (subst scrollLoop.simps) (auto simp add: ret_def)
  from A B C D show ?thesis by blast
qed


theorem scroll_stops_within_30_iterations_witness:
  "(\<forall>b. 0 \<le> fst (random browserTall b) \<and> fst (random browserTall b) < 1)
   \<and> (\<forall>b. fst (random browserTall b) = 1 / 2)
   \<and> fst (scrollDownPage browserTall 1 state0) = Returned ()
   \<and> (\<exists>evs. trace (snd (scrollDownPage browserTall 1 state0)) = trace state0 @ evs
          \<and> length (filter isMove evs) = 30
          \<and> wheelDeltas evs = replicate 30 300)
   \<and> (\<exists>rest. trace (snd (scrollLoop browserTall 1 768 5000 0 0 state0))
                = MouseMove 1 75 75 # MouseWheel 1 300 # rest)
   \<and> scrollLoop browserTall 1 768 5000 0 30 state0 = (Returned (), state0)"
proof -
  let ?D = browserTall
  let ?t = "state0\<lparr>trace := [Evaluate 1 ''window.innerHeight'', Evaluate 1 ''window.scrollY'',
                             Evaluate 1 ''document.body.scrollHeight''],
                    clock := 3\<rparr>"
  note T = scroll_stops_within_30_iterations
             [where drv = ?D and page = 1 and s = state0
                and r = "fst (scrollDownPage ?D 1 state0)" and s' = "snd (scrollDownPage ?D 1 state0)"
                and sy = 0 and ih = 768 and sh = 5000 and i = 0 and t = state0
                and x = "1 / 2" and ka = 0 and y = "1 / 2" and kb = 0 and z = "1 / 2" and kc = 0
                and q = "fst (scrollLoop ?D 1 768 5000 0 0 state0)"
                and t' = "snd (scrollLoop ?D 1 768 5000 0 0 state0)"
                and ih' = 768 and sh' = 5000 and sy' = 0 and j = 0 and w = ?t and c = "1 / 2"
                and ih'' = 768 and sh'' = 5000 and sy'' = 0 and n = 30 and st = state0]
  have h: "\<forall>b. 0 \<le> fst (random ?D b) \<and> fst (random ?D b) < 1"
    by (simp add: browserTall_def scriptedBrowser_def)
  have c: "\<forall>b. fst (random ?D b) = 1 / 2"
    by (simp add: browserTall_def scriptedBrowser_def)
  have start: "scrollDownPage ?D 1 state0 = scrollLoop ?D 1 768 5000 0 0 ?t"
    by (simp add: scrollDownPage_def andThen_def await_def Let_def browserTall_def
                  scriptedBrowser_def state0_def numeral_3_eq_3)
  have mv: "\<exists>u t1. await (MouseMove 1 (1 / 2 * (100 - 50) + 50) (1 / 2 * (100 - 50) + 50))
                      (mouseMove ?D 1 (1 / 2 * (100 - 50) + 50) (1 / 2 * (100 - 50) + 50))
                      (state0\<lparr>browser := 0\<rparr>) = (Returned u, t1)"
    by (simp add: await_def Let_def browserTall_def scriptedBrowser_def state0_def)
  have first: "\<exists>rest. trace (snd (scrollLoop ?D 1 768 5000 0 0 state0))
                = MouseMove 1 75 75 # MouseWheel 1 300 # rest"
    using conjunct1 [OF conjunct2 [OF T]] mv
    by (auto simp add: browserTall_def scriptedBrowser_def state0_def)
  have never: "\<exists>w' evs. scrollLoop ?D 1 768 5000 0 0 ?t = (Returned (), w')
         \<and> trace w' = trace ?t @ evs
         \<and> length (filter isMove evs) = 30 \<and> wheelDeltas evs = replicate 30 300"
    using conjunct1 [OF conjunct2 [OF conjunct2 [OF T]]] c
    by (auto simp add: browserTall_def scriptedBrowser_def state0_def)
  have stop: "scrollLoop ?D 1 768 5000 0 30 state0 = (Returned (), state0)"
    using conjunct2 [OF conjunct2 [OF conjunct2 [OF T]]] by simp
  from never obtain w' evs where run: "scrollLoop ?D 1 768 5000 0 0 ?t = (Returned (), w')"
    and tr: "trace w' = trace ?t @ evs" and mvs: "length (filter isMove evs) = 30"
    and dl: "wheelDeltas evs = replicate 30 300" by blast
  have whole: "\<exists>evs. trace (snd (scrollDownPage ?D 1 state0)) = trace state0 @ evs
          \<and> length (filter isMove evs) = 30 \<and> wheelDeltas evs = replicate 30 300"
    apply (rule exI [of _ "[Evaluate 1 ''window.innerHeight'', Evaluate 1 ''window.scrollY'',
                             Evaluate 1 ''document.body.scrollHeight''] @ evs"])
    using tr mvs dl unfolding start run by (simp add: state0_def)
  have res: "fst (scrollDownPage ?D 1 state0) = Returned ()" unfolding start run by simp
  from h c res whole first stop show ?thesis by blast
qed

subsection \<open>Loading a page issues no call of the explorer\<close>

lemma quiet_andThen:
  assumes "keeps (emits c P 0) m" and "\<And>x. keeps (emits c P 0) (f x)"
  shows "keeps (emits c P 0) (andThen m f)"
  using emits_andThen [of c P 0 m 0 f] assms by simp

lemma keeps_if: "keeps R a \<Longrightarrow> keeps R b \<Longrightarrow> keeps R (if t then a else b)"
  by simp

lemma quiet_tryCatch:
  assumes "keeps (emits c P 0) m" and "\<And>e. keeps (emits c P 0) (h e)"
  shows "keeps (emits c P 0) (tryCatch m h)"
proof (rule keepsI)
  fix s r s'
  assume run: "tryCatch m h s = (r, s')"
  show "emits c P 0 s s'"
  proof (cases "m s")
    case (Pair x s1)
    then have a: "emits c P 0 s s1" using assms(1) by (simp add: keeps_def)
    show ?thesis
    proof (cases x)
      case (Threw e)
      with Pair run have "h e s1 = (r, s')" by (simp add: tryCatch_def)
      then have "emits c P 0 s1 s'" using assms(2) by (simp add: keeps_def)
      with a show ?thesis using emits_trans [of c P 0 s s1 0 s'] by simp
    qed (use Pair run a in \<open>auto simp add: tryCatch_def\<close>)
  qed
qed

lemma quiet_tryFinally:
  assumes "keeps (emits c P 0) m" and "\<And>s. trace (fin s) = trace s"
  shows "keeps (emits c P 0) (tryFinally m fin)"
proof (rule keepsI)
  fix s r s'
  assume run: "tryFinally m fin s = (r, s')"
  show "emits c P 0 s s'"
  proof (cases "m s")
    case (Pair x s1)
    then have a: "emits c P 0 s s1" using assms(1) by (simp add: keeps_def)
    then have b: "emits c P 0 s (fin s1)" using assms(2) by (simp add: emits_def)
    show ?thesis using Pair run a b by (cases x) (auto simp add: tryFinally_def)
  qed
qed

lemma quiet_same_trace:
  "(\<And>s r s'. m s = (r, s') \<Longrightarrow> trace s' = trace s) \<Longrightarrow> keeps (emits c P 0) m"
  by (auto simp add: keeps_def emits_def)

lemma quiet_archivePage: "keeps (emits c P 0) (archivePage row)"
  by (rule quiet_same_trace) (auto simp add: archivePage_def)

lemma quiet_updatePage: "keeps (emits c P 0) (\<lambda>s. updatePage pageId (chg s) s)"
  by (rule quiet_same_trace) (auto simp add: updatePage_def)

lemma quiet_archiveRequest: "keeps (emits c P 0) (archiveRequest rq)"
  by (rule quiet_same_trace) (auto simp add: archiveRequest_def)

lemma quiet_saveRequests: "keeps (emits c P 0) (saveRequests pageId rqs)"
  by (induction rqs) (auto intro!: quiet_andThen quiet_archiveRequest emits_ret)

lemma quiet_saveRequests': "keeps (emits c P 0) (\<lambda>s. saveRequests pageId (rqs s) s)"
  using quiet_saveRequests [of c P pageId] by (auto simp add: keeps_def)

lemma quiet_scrollLoop:
  "keeps (emits isFindAds isCall 0) (scrollLoop drv page ih sh sy i)"
proof (induction drv page ih sh sy i rule: scrollLoop.induct)
  case (1 drv page ih sh sy i)
  show ?case
  proof (cases "sy + ih < sh \<and> i < 30")
    case False
    have "scrollLoop drv page ih sh sy i = ret ()"
      by (subst scrollLoop.simps) (simp only: False if_False)
    then show ?thesis by (simp add: emits_ret)
  next
    case True
    show ?thesis
      apply (subst scrollLoop.simps)
      apply (simp only: True if_True simp_thms)
      apply (intro quiet_andThen emits_randrange emits_await emits_sleep "1.IH" [OF True])
      apply (simp_all add: isCall_def)
      done
  qed
qed

lemma quiet_scrollDownPage: "keeps (emits isFindAds isCall 0) (scrollDownPage drv page)"
  unfolding scrollDownPage_def
  by (intro quiet_andThen emits_await quiet_scrollLoop) (simp_all add: isCall_def)

lemma quiet_loadAndHandlePage_try:
  "keeps (emits isFindAds isCall 0) (loadAndHandlePage_try drv h flags cid url page md pageId)"
  unfolding loadAndHandlePage_try_def
  by (intro quiet_andThen keeps_if emits_await emits_sleep emits_ret quiet_scrollDownPage
            quiet_updatePage quiet_saveRequests')
     (simp_all add: isCall_def)

lemma quiet_throw: "keeps (emits c P 0) (throw e)"
  by (rule quiet_same_trace) (auto simp add: throw_def)

lemma quiet_loadAndHandlePage:
  "keeps (emits isFindAds isCall 0) (loadAndHandlePage drv h flags cid url page md)"
proof -
  have "keeps (emits isFindAds isCall 0)
          (\<lambda>s. andThen (archivePage (row s)) (\<lambda>pageId.
                 tryCatch (loadAndHandlePage_try drv h flags cid url page md pageId)
                   (\<lambda>e. andThen (updatePage pageId (\<lambda>r. r\<lparr>page_error := Some (message e)\<rparr>))
                           (\<lambda>_. throw e))) s)" for row
  proof (rule keepsI)
    fix s r s'
    assume "andThen (archivePage (row s)) (\<lambda>pageId.
                 tryCatch (loadAndHandlePage_try drv h flags cid url page md pageId)
                   (\<lambda>e. andThen (updatePage pageId (\<lambda>r. r\<lparr>page_error := Some (message e)\<rparr>))
                           (\<lambda>_. throw e))) s = (r, s')"
    moreover have "keeps (emits isFindAds isCall 0)
       (andThen (archivePage (row s)) (\<lambda>pageId.
                 tryCatch (loadAndHandlePage_try drv h flags cid url page md pageId)
                   (\<lambda>e. andThen (updatePage pageId (\<lambda>r. r\<lparr>page_error := Some (message e)\<rparr>))
                           (\<lambda>_. throw e))))"
      by (intro quiet_andThen quiet_tryCatch quiet_archivePage quiet_loadAndHandlePage_try
                quiet_updatePage quiet_throw)
    ultimately show "emits isFindAds isCall 0 s s'" by (rule keepsD [rotated])
  qed
  then show ?thesis by (simp add: keeps_def loadAndHandlePage_def)
qed


lemma quiet_loadAndHandlePage_reads:
  "keeps (emits isFindAds isCall 0) (\<lambda>s. loadAndHandlePage drv h flags cid url page (md s) s)"
proof (rule keepsI)
  fix s r s'
  assume "loadAndHandlePage drv h flags cid url page (md s) s = (r, s')"
  with quiet_loadAndHandlePage show "emits isFindAds isCall 0 s s'" by (rule keepsD)
qed

lemma quiet_loadSubpage:
  "keeps (emits isFindAds isCall 0) (loadSubpage drv h flags cid target pageId rl)"
  unfolding loadSubpage_def
  by (intro quiet_andThen emits_await quiet_loadAndHandlePage_reads)
     (simp_all add: isCall_def)

lemma quiet_visitSubpage:
  "keeps (emits isFindAds isCall 0) (visitSubpage drv h flags cid target pageId)"
  unfolding visitSubpage_def
  by (intro quiet_andThen keeps_if quiet_loadSubpage emits_ret)

lemma findAds_await:
  "keeps (emits isFindAds isCall 1)
     (\<lambda>s. await (FindHealthRelatedPagesWithAds (seedPage s))
                 (findHealthRelatedPagesWithAds drv (seedPage s)) s)"
proof (rule keepsI)
  fix s r s'
  assume run: "await (FindHealthRelatedPagesWithAds (seedPage s))
                 (findHealthRelatedPagesWithAds drv (seedPage s)) s = (r, s')"
  have "keeps (emits isFindAds isCall 1)
          (await (FindHealthRelatedPagesWithAds (seedPage s))
                 (findHealthRelatedPagesWithAds drv (seedPage s)))"
    by (rule emits_await_counted) (simp add: isCall_def)
  then show "emits isFindAds isCall 1 s s'" using run by (rule keepsD)
qed

lemma quiet_log: "keeps (emits isFindAds isCall 0) (\<lambda>s. ret () (logStrError m s))"
  by (auto simp add: keeps_def emits_def ret_def logStrError_def isCall_def)

lemma findAndCrawlPagesWithAds_attempts:
  "keeps (emits isFindAds isCall (nat (findAndCrawlPageWithAds (crawlOptions flags) - int i)))
         (findAndCrawlPagesWithAds drv h flags cid url pageId i)"
proof (induction drv h flags cid url pageId i rule: findAndCrawlPagesWithAds.induct)
  case (1 drv h flags cid url pageId i)
  let ?N = "findAndCrawlPageWithAds (crawlOptions flags)"
  show ?case
  proof (cases "int i < ?N")
    case False
    have "findAndCrawlPagesWithAds drv h flags cid url pageId i = ret ()"
      by (subst findAndCrawlPagesWithAds.simps) (simp only: False if_False)
    then show ?thesis using emits_mono [OF emits_ret] by simp 
  next
    case True
    have step: "keeps (emits isFindAds isCall (0 + nat (?N - int (i + 1))))
                  (if truthy u
                   then andThen (visitSubpage drv h flags cid (the u) pageId)
                          (\<lambda>_. findAndCrawlPagesWithAds drv h flags cid url pageId (i + 1))
                   else (\<lambda>s. ret () (logStrError (url @ '': Could not find page with ads'') s)))"
      for u
    proof (cases "truthy u")
      case yes: True
      show ?thesis
        apply (simp only: yes if_True)
        apply (rule emits_andThen [OF quiet_visitSubpage])
        apply (rule "1.IH" [OF True yes])
        done
    next
      case no: False
      show ?thesis
        apply (simp only: no if_False)
        apply (rule emits_mono [OF quiet_log])
        apply simp
        done
    qed
    have "keeps (emits isFindAds isCall (1 + (0 + nat (?N - int (i + 1)))))
            (findAndCrawlPagesWithAds drv h flags cid url pageId i)"
      apply (subst findAndCrawlPagesWithAds.simps)
      apply (simp only: True if_True)
      apply (rule emits_andThen [OF findAds_await])
      apply (rule step)
      done
    moreover from True have "1 + (0 + nat (?N - int (i + 1))) \<le> nat (?N - int i)" by simp
    ultimately show ?thesis by (rule emits_mono)
  qed
qed

lemma stops_at_miss:
  assumes "int i < findAndCrawlPageWithAds (crawlOptions flags)"
    and "await (FindHealthRelatedPagesWithAds (seedPage s))
               (findHealthRelatedPagesWithAds drv (seedPage s)) s = (Returned u, s1)"
    and "\<not> truthy u"
  shows "findAndCrawlPagesWithAds drv h flags cid url pageId i s
           = (Returned (), logStrError (url @ '': Could not find page with ads'') s1)"
  using assms
  by (subst findAndCrawlPagesWithAds.simps) (simp add: andThen_def ret_def)

lemma continues_after_hit:
  assumes "int i < findAndCrawlPageWithAds (crawlOptions flags)"
    and "await (FindHealthRelatedPagesWithAds (seedPage s))
               (findHealthRelatedPagesWithAds drv (seedPage s)) s = (Returned u, s1)"
    and "truthy u"
    and "visitSubpage drv h flags cid (the u) pageId s1 = (Returned (), s2)"
  shows "findAndCrawlPagesWithAds drv h flags cid url pageId i s
           = findAndCrawlPagesWithAds drv h flags cid url pageId (i + 1) s2"
  using assms
  by (subst findAndCrawlPagesWithAds.simps) (simp add: andThen_def ret_def)


subsection \<open>Looking for pages with ads\<close>

lemmas run_defs = andThen_def await_def sleep_def ret_def throw_def tryCatch_def tryFinally_def
  archivePage_def updatePage_def archiveRequest_def randrange_def Let_def
  PAGE_NAVIGATION_TIMEOUT_def PAGE_SLEEP_TIME_def

lemma two_attempts:
  assumes N: "findAndCrawlPageWithAds (crawlOptions flags) = 3"
    and a1: "await (FindHealthRelatedPagesWithAds (seedPage s))
               (findHealthRelatedPagesWithAds drv (seedPage s)) s = (Returned u1, s1)"
    and t1: "truthy u1"
    and v: "visitSubpage drv h flags cid (the u1) pageId s1 = (Returned (), s2)"
    and a2: "await (FindHealthRelatedPagesWithAds (seedPage s2))
               (findHealthRelatedPagesWithAds drv (seedPage s2)) s2 = (Returned u2, s3)"
    and t2: "\<not> truthy u2"
  shows "findAndCrawlPagesWithAds drv h flags cid url pageId 0 s
           = (Returned (), logStrError (url @ '': Could not find page with ads'') s3)
       \<and> length (filter isFindAds
             (drop (length (trace s))
                (trace (logStrError (url @ '': Could not find page with ads'') s3)))) = 2"
proof -
  have "findAndCrawlPagesWithAds drv h flags cid url pageId 0 s
          = findAndCrawlPagesWithAds drv h flags cid url pageId (0 + 1) s2"
    using N a1 t1 v by (intro continues_after_hit) simp_all
  also have "\<dots> = (Returned (), logStrError (url @ '': Could not find page with ads'') s3)"
    using N a2 t2 by (intro stops_at_miss) simp_all
  finally have run: "findAndCrawlPagesWithAds drv h flags cid url pageId 0 s
           = (Returned (), logStrError (url @ '': Could not find page with ads'') s3)" .
  have tr1: "trace s1 = trace s @ [FindHealthRelatedPagesWithAds (seedPage s)]"
    using a1 by (rule await_trace)
  from keepsD [OF quiet_visitSubpage v]
  obtain evs where evs: "trace s2 = trace s1 @ evs" "length (filter isFindAds evs) \<le> 0"
    unfolding emits_def by blast
  have tr3: "trace s3 = trace s2 @ [FindHealthRelatedPagesWithAds (seedPage s2)]"
    using a2 by (rule await_trace)
  have "length (filter isFindAds
             (drop (length (trace s))
                (trace (logStrError (url @ '': Could not find page with ads'') s3)))) = 2"
    using tr1 evs tr3 by (simp add: logStrError_def)
  with run show ?thesis by simp
qed

text \<open>
  C8. With \<open>N\<close> pages with ads asked for, the loop calls the explorer at most \<open>N\<close> times
  (never, when \<open>N\<close> is not positive). When an attempt returns no candidate, the loop logs
  a notice and returns at once, without another attempt. In particular with \<open>N = 3\<close>, a
  candidate at the first attempt whose visit returns, and none at the second, the loop
  returns after exactly 2 attempts.
\<close>

theorem ads_exploration_stops_at_first_miss:
  "(findAndCrawlPagesWithAds drv h flags cid url pageId 0 s = (r, s')
      \<longrightarrow> (\<exists>evs. trace s' = trace s @ evs
             \<and> int (length (filter isFindAds evs))
                 \<le> max 0 (findAndCrawlPageWithAds (crawlOptions flags))))
   \<and> (int i < findAndCrawlPageWithAds (crawlOptions flags)
        \<and> await (FindHealthRelatedPagesWithAds (seedPage s))
                 (findHealthRelatedPagesWithAds drv (seedPage s)) s = (Returned u, s1)
        \<and> \<not> truthy u
      \<longrightarrow> findAndCrawlPagesWithAds drv h flags cid url pageId i s
            = (Returned (), logStrError (url @ '': Could not find page with ads'') s1))
   \<and> (findAndCrawlPageWithAds (crawlOptions flags) = 3
        \<and> await (FindHealthRelatedPagesWithAds (seedPage s))
                 (findHealthRelatedPagesWithAds drv (seedPage s)) s = (Returned u1, t1)
        \<and> truthy u1
        \<and> visitSubpage drv h flags cid (the u1) pageId t1 = (Returned (), t2)
        \<and> await (FindHealthRelatedPagesWithAds (seedPage t2))
                 (findHealthRelatedPagesWithAds drv (seedPage t2)) t2 = (Returned u2, t3)
        \<and> \<not> truthy u2
      \<longrightarrow> findAndCrawlPagesWithAds drv h flags cid url pageId 0 s
            = (Returned (), logStrError (url @ '': Could not find page with ads'') t3)
          \<and> length (filter isFindAds
               (drop (length (trace s))
                  (trace (logStrError (url @ '': Could not find page with ads'') t3)))) = 2)"
proof -
  have bound: "\<exists>evs. trace s' = trace s @ evs
             \<and> int (length (filter isFindAds evs))
                 \<le> max 0 (findAndCrawlPageWithAds (crawlOptions flags))"
    if run: "findAndCrawlPagesWithAds drv h flags cid url pageId 0 s = (r, s')"
  proof -
    from keepsD [OF findAndCrawlPagesWithAds_attempts run]
    obtain evs where "trace s' = trace s @ evs"
      "length (filter isFindAds evs) \<le> nat (findAndCrawlPageWithAds (crawlOptions flags) - int 0)"
      unfolding emits_def by blast
    then show ?thesis by (intro exI [of _ evs]) auto
  qed
  show ?thesis
    using bound stops_at_miss [of i flags s drv u s1 h cid url pageId]
          two_attempts [of flags s drv u1 t1 h cid pageId t2 u2 t3 url]
    by blast
qed


theorem ads_exploration_stops_at_first_miss_witness:
  "findAndCrawlPageWithAds (crawlOptions flags3) = 3
   \<and> fst (findAndCrawlPagesWithAds browser3 hostA flags3 7 ''https://a.example/'' 1 0 state0)
       = Returned ()
   \<and> length (filter isFindAds
        (trace (snd (findAndCrawlPagesWithAds browser3 hostA flags3 7 ''https://a.example/'' 1 0
                       state0)))) = 2"
proof -
  define t1 where
    "t1 = snd (await (FindHealthRelatedPagesWithAds (seedPage state0))
                 (findHealthRelatedPagesWithAds browser3 (seedPage state0)) state0)"
  define t2 where
    "t2 = snd (visitSubpage browser3 hostA flags3 7 (the (Some ''https://b.example/'')) 1 t1)"
  define t3 where
    "t3 = snd (await (FindHealthRelatedPagesWithAds (seedPage t2))
                 (findHealthRelatedPagesWithAds browser3 (seedPage t2)) t2)"
  have n: "findAndCrawlPageWithAds (crawlOptions flags3) = 3"
    by (simp add: flags3_def)
  have a1: "await (FindHealthRelatedPagesWithAds (seedPage state0))
              (findHealthRelatedPagesWithAds browser3 (seedPage state0)) state0
            = (Returned (Some ''https://b.example/''), t1)"
    by (simp add: t1_def run_defs browser3_def scriptedBrowser_def state0_def)
  have b1: "browser t1 = 1" "deadline t1 = None"
    by (simp_all add: t1_def run_defs browser3_def scriptedBrowser_def state0_def)
  have v: "visitSubpage browser3 hostA flags3 7 (the (Some ''https://b.example/'')) 1 t1
            = (Returned (), t2)"
    using b1
    by (simp add: t2_def visitSubpage_def loadSubpage_def loadAndHandlePage_def
          loadAndHandlePage_try_def scrollDownPage_def scrollLoop.simps run_defs browser3_def
          scriptedBrowser_def flags3_def flagsA_def hostA_def)
  have b2: "browser t2 = 1" "deadline t2 = None"
    using b1
    by (simp_all add: t2_def visitSubpage_def loadSubpage_def loadAndHandlePage_def
          loadAndHandlePage_try_def scrollDownPage_def scrollLoop.simps run_defs browser3_def
          scriptedBrowser_def flags3_def flagsA_def hostA_def)
  have a2: "await (FindHealthRelatedPagesWithAds (seedPage t2))
              (findHealthRelatedPagesWithAds browser3 (seedPage t2)) t2
            = (Returned None, t3)"
    using b2 by (simp add: t3_def run_defs browser3_def scriptedBrowser_def)
  from ads_exploration_stops_at_first_miss [of browser3 hostA flags3 7 "''https://a.example/''" 1 state0 "Returned ()" state0 0
              None state0 "Some ''https://b.example/''" t1 t2 None t3]
       n a1 v a2
  have "findAndCrawlPagesWithAds browser3 hostA flags3 7 ''https://a.example/'' 1 0 state0
            = (Returned (), logStrError (''https://a.example/'' @ '': Could not find page with ads'') t3)
          \<and> length (filter isFindAds
               (drop (length (trace state0))
                  (trace (logStrError (''https://a.example/'' @ '': Could not find page with ads'') t3))))
             = 2"
    by simp
  then show ?thesis using n by (simp add: state0_def)
qed

subsection \<open>Loading one page\<close>

lemma kept_same_table:
  "(\<And>s r s'. m s = (r, s') \<Longrightarrow> page_tbl s' = page_tbl s) \<Longrightarrow> keeps (pagesKept f) m"
  by (auto simp add: keeps_def pagesKept_def)

lemma kept_andThen:
  assumes "keeps (pagesKept f) m" and "\<And>x. keeps (pagesKept f) (g x)"
  shows "keeps (pagesKept f) (andThen m g)"
  using assms(1) assms(2)
  by (rule keeps_andThen) (auto simp add: pagesKept_def)

lemma kept_ret: "keeps (pagesKept f) (ret a)"
  by (rule kept_same_table) (simp add: ret_def)

lemma kept_await: "keeps (pagesKept f) (await ev call)"
  by (rule kept_same_table)
     (auto simp add: await_def Let_def split: prod.splits if_splits reply.splits)

lemma kept_sleep: "keeps (pagesKept f) (sleep ms)"
  unfolding sleep_def by (rule kept_await)

lemma kept_randrange: "keeps (pagesKept f) (randrange drv low high)"
  by (rule kept_same_table) (auto simp add: randrange_def split: prod.splits)

lemma kept_archiveRequest: "keeps (pagesKept f) (archiveRequest rq)"
  by (rule kept_same_table) (auto simp add: archiveRequest_def)

lemma kept_saveRequests: "keeps (pagesKept f) (\<lambda>s. saveRequests pageId (rqs s) s)"
proof -
  have "keeps (pagesKept f) (saveRequests pageId xs)" for xs
    by (induction xs) (auto intro!: kept_andThen kept_archiveRequest kept_ret)
  then show ?thesis by (auto simp add: keeps_def)
qed

lemma kept_scrollLoop: "keeps (pagesKept f) (scrollLoop drv page ih sh sy i)"
proof (induction drv page ih sh sy i rule: scrollLoop.induct)
  case (1 drv page ih sh sy i)
  show ?case
  proof (cases "sy + ih < sh \<and> i < 30")
    case False
    have "scrollLoop drv page ih sh sy i = ret ()"
      by (subst scrollLoop.simps) (simp only: False if_False)
    then show ?thesis by (simp add: kept_ret)
  next
    case True
    show ?thesis
      apply (subst scrollLoop.simps)
      apply (simp only: True if_True simp_thms)
      apply (intro kept_andThen kept_randrange kept_await kept_sleep "1.IH" [OF True])
      done
  qed
qed

lemma kept_scrollDownPage: "keeps (pagesKept f) (scrollDownPage drv page)"
  unfolding scrollDownPage_def
  by (intro kept_andThen kept_await kept_scrollLoop)

lemma kept_updatePage:
  assumes "\<And>s r. f (chg s r) = f r"
  shows "keeps (pagesKept f) (\<lambda>s. updatePage pageId (chg s) s)"
  using assms by (auto simp add: keeps_def pagesKept_def updatePage_def)

lemma kept_loadAndHandlePage_try:
  assumes "\<And>r t u. f (r\<lparr>page_timestamp := t, page_url := u\<rparr>) = f r"
  shows "keeps (pagesKept f) (loadAndHandlePage_try drv h flags cid url page md pageId)"
  unfolding loadAndHandlePage_try_def
  by (intro kept_andThen keeps_if kept_await kept_sleep kept_ret kept_scrollDownPage
            kept_updatePage kept_saveRequests)
     (simp add: assms)


lemma andThen_ReturnedE:
  assumes "andThen m f s = (Returned p, s')"
  obtains a s1 where "m s = (Returned a, s1)" and "f a s1 = (Returned p, s')"
  using assms by (auto simp add: andThen_def split: prod.splits outcome.splits)

lemma loadAndHandlePage_try_returns:
  "loadAndHandlePage_try drv h flags cid url page md pageId s = (Returned p, s') \<Longrightarrow> p = pageId"
  unfolding loadAndHandlePage_try_def
  apply (erule andThen_ReturnedE)+
  apply (simp add: ret_def)
  done

text \<open>
  C6. \<^verbatim>\<open>loadAndHandlePage\<close> first adds the page-visit row, with no address and no error
  yet, and only then runs the steps from request interception and navigation on (no call
  to the browser has been made when the row is there). Whatever happens next, the row
  stays in the table with its id and its requested address. When a step fails, the
  failure leaves the function as it was thrown and the row's error field holds its
  message; when all steps succeed, the function returns the row's id and the error field
  is empty; when the function never returns, the error field is empty.
\<close>

theorem page_visit_created_then_error_recorded:
  assumes run: "loadAndHandlePage drv h flags cid url page md s = (r, s')"
  shows "(\<exists>s0. page_tbl s0 = page_tbl s @
                  [\<lparr>page_id = next_page_id s, page_timestamp = clock s,
                    page_job_id = jobId flags, page_crawl_id = cid, original_url = url,
                    page_type = pageType md, referrer_page = referrerPageId md,
                    referrer_page_url = referrerPageUrl md, referrer_ad = referrerAd md,
                    reload = reload_count md, page_url = None, page_error = None\<rparr>]
              \<and> trace s0 = trace s
              \<and> tryCatch (loadAndHandlePage_try drv h flags cid url page md (next_page_id s))
                   (\<lambda>e. andThen (updatePage (next_page_id s)
                                    (\<lambda>r. r\<lparr>page_error := Some (message e)\<rparr>))
                           (\<lambda>_. throw e)) s0 = (r, s'))
       \<and> length (page_tbl s') = Suc (length (page_tbl s))
       \<and> page_id (page_tbl s' ! length (page_tbl s)) = next_page_id s
       \<and> original_url (page_tbl s' ! length (page_tbl s)) = url
       \<and> (\<forall>e. r = Threw e
              \<longrightarrow> page_error (page_tbl s' ! length (page_tbl s)) = Some (message e))
       \<and> (\<forall>p. r = Returned p
              \<longrightarrow> p = next_page_id s \<and> page_error (page_tbl s' ! length (page_tbl s)) = None)
       \<and> (r = TimedOut \<or> r = Hung
              \<longrightarrow> page_error (page_tbl s' ! length (page_tbl s)) = None)"
proof -
  let ?pid = "next_page_id s"
  let ?n = "length (page_tbl s)"
  let ?row = "\<lparr>page_id = ?pid, page_timestamp = clock s,
                    page_job_id = jobId flags, page_crawl_id = cid, original_url = url,
                    page_type = pageType md, referrer_page = referrerPageId md,
                    referrer_page_url = referrerPageUrl md, referrer_ad = referrerAd md,
                    reload = reload_count md, page_url = None, page_error = None\<rparr>"
  let ?f = "\<lambda>r. (page_id r, original_url r, page_error r)"
  let ?handler = "\<lambda>e. andThen (updatePage ?pid (\<lambda>r. r\<lparr>page_error := Some (message e)\<rparr>))
                           (\<lambda>_. throw e)"
  define s0 where "s0 = s\<lparr>page_tbl := page_tbl s @ [?row], next_page_id := Suc ?pid\<rparr>"
  have tc: "tryCatch (loadAndHandlePage_try drv h flags cid url page md ?pid) ?handler s0 = (r, s')"
    using run by (simp add: loadAndHandlePage_def andThen_def archivePage_def s0_def)
  obtain x s1 where tr: "loadAndHandlePage_try drv h flags cid url page md ?pid s0 = (x, s1)"
    by (cases "loadAndHandlePage_try drv h flags cid url page md ?pid s0")
  have "pagesKept ?f s0 s1"
    by (rule keepsD [OF kept_loadAndHandlePage_try tr]) simp
  then have kept: "map ?f (page_tbl s1) = map ?f (page_tbl s) @ [(?pid, url, None)]"
    by (simp add: pagesKept_def s0_def)
  have len1: "length (page_tbl s1) = Suc ?n"
    using arg_cong [OF kept, of length] by simp
  have nth1: "?f (page_tbl s1 ! ?n) = (?pid, url, None)"
  proof -
    have "map ?f (page_tbl s1) ! ?n = (?pid, url, None)"
      unfolding kept by (simp add: nth_append)
    then show ?thesis using len1 by simp
  qed
  have first: "\<exists>s0. page_tbl s0 = page_tbl s @ [?row] \<and> trace s0 = trace s
              \<and> tryCatch (loadAndHandlePage_try drv h flags cid url page md ?pid) ?handler s0
                  = (r, s')"
  proof (intro exI [of _ s0] conjI)
    show "page_tbl s0 = page_tbl s @ [?row]" by (simp add: s0_def)
    show "trace s0 = trace s" by (simp add: s0_def)
    show "tryCatch (loadAndHandlePage_try drv h flags cid url page md ?pid) ?handler s0 = (r, s')"
      by (rule tc)
  qed
  have rest: "length (page_tbl s') = Suc ?n
       \<and> page_id (page_tbl s' ! ?n) = ?pid
       \<and> original_url (page_tbl s' ! ?n) = url
       \<and> (\<forall>e. r = Threw e \<longrightarrow> page_error (page_tbl s' ! ?n) = Some (message e))
       \<and> (\<forall>p. r = Returned p \<longrightarrow> p = ?pid \<and> page_error (page_tbl s' ! ?n) = None)
       \<and> (r = TimedOut \<or> r = Hung \<longrightarrow> page_error (page_tbl s' ! ?n) = None)"
  proof (cases x)
    case (Threw e)
    with tc tr have r: "r = Threw e"
      and s': "s' = s1\<lparr>page_tbl := map (\<lambda>r. if page_id r = ?pid
                                           then r\<lparr>page_error := Some (message e)\<rparr> else r)
                                     (page_tbl s1)\<rparr>"
      by (auto simp add: tryCatch_def andThen_def updatePage_def throw_def)
    show ?thesis using r len1 nth1 by (simp add: s')
  next
    case (Returned p)
    with tc tr have r: "r = Returned p" and s': "s' = s1"
      by (auto simp add: tryCatch_def)
    have "p = ?pid" using tr Returned by (auto dest: loadAndHandlePage_try_returns)
    then show ?thesis using r len1 nth1 by (simp add: s')
  next
    case TimedOut
    with tc tr have "r = TimedOut" and "s' = s1" by (auto simp add: tryCatch_def)
    then show ?thesis using len1 nth1 by simp
  next
    case Hung
    with tc tr have "r = Hung" and "s' = s1" by (auto simp add: tryCatch_def)
    then show ?thesis using len1 nth1 by simp
  qed
  from first rest show ?thesis by blast
qed


theorem page_visit_created_then_error_recorded_witness:
  "fst (loadAndHandlePage browserNavFails hostA flagsA 7 ''https://a.example/'' 1
          \<lparr>pageType = MAIN, referrerPageId = None, referrerPageUrl = None,
           referrerAd = None, reload_count = 0\<rparr> state0)
     = Threw (Error ''net::ERR_NAME_NOT_RESOLVED'')
   \<and> page_error
        (page_tbl (snd (loadAndHandlePage browserNavFails hostA flagsA 7 ''https://a.example/'' 1
                          \<lparr>pageType = MAIN, referrerPageId = None, referrerPageUrl = None,
                           referrerAd = None, reload_count = 0\<rparr> state0)) ! 0)
     = Some ''net::ERR_NAME_NOT_RESOLVED''"
proof -
  let ?run = "loadAndHandlePage browserNavFails hostA flagsA 7 ''https://a.example/'' 1
          \<lparr>pageType = MAIN, referrerPageId = None, referrerPageUrl = None,
           referrerAd = None, reload_count = 0\<rparr> state0"
  have r: "fst ?run = Threw (Error ''net::ERR_NAME_NOT_RESOLVED'')"
    by (simp add: loadAndHandlePage_def loadAndHandlePage_try_def run_defs browserNavFails_def
          scriptedBrowser_def state0_def)
  have "?run = (fst ?run, snd ?run)" by simp
  from page_visit_created_then_error_recorded [OF this] r show ?thesis by (simp add: state0_def)
qed

subsection \<open>One crawl list item and its timer\<close>

lemma emits_tryCatch:
  assumes "keeps (emits c P a) m" and "\<And>e. keeps (emits c P 0) (h e)"
  shows "keeps (emits c P a) (tryCatch m h)"
proof (rule keepsI)
  fix s r s'
  assume run: "tryCatch m h s = (r, s')"
  show "emits c P a s s'"
  proof (cases "m s")
    case (Pair x s1)
    then have a: "emits c P a s s1" using assms(1) by (simp add: keeps_def)
    show ?thesis
    proof (cases x)
      case (Threw e)
      with Pair run have "h e s1 = (r, s')" by (simp add: tryCatch_def)
      then have "emits c P 0 s1 s'" using assms(2) by (simp add: keeps_def)
      with a show ?thesis using emits_trans [of c P a s s1 0 s'] by simp
    qed (use Pair run a in \<open>auto simp add: tryCatch_def\<close>)
  qed
qed

lemma emits_tryFinally:
  assumes "keeps (emits c P a) m" and "\<And>s. trace (fin s) = trace s"
  shows "keeps (emits c P a) (tryFinally m fin)"
proof (rule keepsI)
  fix s r s'
  assume run: "tryFinally m fin s = (r, s')"
  show "emits c P a s s'"
  proof (cases "m s")
    case (Pair x s1)
    then have a: "emits c P a s s1" using assms(1) by (simp add: keeps_def)
    then have b: "emits c P a s (fin s1)" using assms(2) by (simp add: emits_def)
    show ?thesis using Pair run a b by (cases x) (auto simp add: tryFinally_def)
  qed
qed

lemma quiet_loadSeedPage:
  "keeps (emits isFindAds isCall 0) (loadSeedPage drv h flags inp cid url prevAdId rl)"
proof (rule keepsI)
  fix s r s'
  assume "loadSeedPage drv h flags inp cid url prevAdId rl s = (r, s')"
  then show "emits isFindAds isCall 0 s s'"
    by (auto simp add: loadSeedPage_def split: if_splits dest: keepsD [OF quiet_loadAndHandlePage])
qed

lemma quiet_reads_await:
  assumes "\<And>s. \<not> c (ev s)" and "\<And>s. P (ev s)"
  shows "keeps (emits c P 0) (\<lambda>s. await (ev s) (call s) s)"
proof (rule keepsI)
  fix s r s'
  assume run: "await (ev s) (call s) s = (r, s')"
  have "keeps (emits c P 0) (await (ev s) (call s))"
    by (rule emits_await) (simp_all add: assms)
  then show "emits c P 0 s s'" using run by (rule keepsD)
qed

lemma quiet_update: 
  "(\<And>s. trace (f s) = trace s) \<Longrightarrow> keeps (emits c P 0) (\<lambda>s. ret a (f s))"
  by (auto simp add: keeps_def emits_def ret_def)

lemma quiet_logError:
  "keeps (emits isFindAds isCall 0) (\<lambda>s. ret () (logError e (u s) s))"
  by (auto simp add: keeps_def emits_def ret_def logError_def isCall_def)

lemma crawlWork_emits:
  "keeps (emits isFindAds isCall (nat (findAndCrawlPageWithAds (crawlOptions flags))))
         (crawlWork drv h flags inp cid url prevAdId)"
proof -
  let ?n = "nat (findAndCrawlPageWithAds (crawlOptions flags))"
  have ads: "keeps (emits isFindAds isCall ?n)
               (findAndCrawlPagesWithAds drv h flags cid url pageId 0)" for pageId
    using findAndCrawlPagesWithAds_attempts [of flags 0 drv h cid url pageId] by simp
  have refresh: "keeps (emits isFindAds isCall 0)
          (if refreshPage (crawlOptions flags) then
             andThen (\<lambda>s. await (ClosePage (seedPage s)) (closePage drv (seedPage s)) s) (\<lambda>_.
             andThen (await NewPage (newPage drv)) (\<lambda>p.
             andThen (\<lambda>s. ret () (s\<lparr>seedPage := p\<rparr>)) (\<lambda>_.
             loadSeedPage drv h flags inp cid url prevAdId 1)))
           else ret pageId0)" for pageId0
    by (intro keeps_if quiet_andThen quiet_reads_await emits_await quiet_update
              quiet_loadSeedPage emits_ret)
       (simp_all add: isCall_def)
  have article: "keeps (emits isFindAds isCall 0)
          (if findAndCrawlArticlePage (crawlOptions flags) then
             andThen (\<lambda>s. await (FindArticle (seedPage s)) (findArticle drv (seedPage s)) s)
               (\<lambda>articleUrl.
                  if truthy articleUrl
                  then visitSubpage drv h flags cid (the articleUrl) pageId
                  else (\<lambda>s. ret () (logStrError (url @ '': Could not find article'') s)))
           else ret ())" for pageId
    by (intro keeps_if quiet_andThen quiet_reads_await quiet_visitSubpage quiet_log emits_ret)
       (simp_all add: isCall_def)
  have "keeps (emits isFindAds isCall (0 + (0 + (0 + ?n))))
         (crawlWork drv h flags inp cid url prevAdId)"
    unfolding crawlWork_def
    apply (rule emits_tryFinally)
     apply (rule emits_tryCatch)
      apply (rule emits_andThen [OF quiet_loadSeedPage])
      apply (rule emits_andThen [OF refresh])
      apply (rule emits_andThen [OF article])
      apply (rule ads)
     apply (rule quiet_logError)
    apply (simp add: clearTimeout_def)
    done
  then show ?thesis by simp
qed


lemma crawlItem_timer:
  assumes run: "crawlItem drv h flags inp cid i db s = (r, db', s')"
    and fired: "\<exists>m. TimeoutFired m \<in> set (drop (length (trace s)) (trace s'))"
  shows "clock s + OVERALL_TIMEOUT inp \<le> clock s'"
proof -
  obtain x s1 where np: "await NewPage (newPage drv) s = (x, s1)"
    by (cases "await NewPage (newPage drv) s")
  have t1: "trace s1 = trace s @ [NewPage]" using np by (rule await_trace)
  show ?thesis
  proof (cases x)
    case (Returned p)
    let ?d = "clock s + OVERALL_TIMEOUT inp"
    let ?url = "crawlList inp ! i"
    let ?ad = "if isAdUrlCrawl inp \<and> i < length (crawlListAdIds inp)
               then Some (crawlListAdIds inp ! i) else None"
    obtain y s2 where w: "crawlWork drv h flags inp cid ?url ?ad
                            (s1\<lparr>seedPage := p, deadline := Some ?d\<rparr>) = (y, s2)"
      by (cases "crawlWork drv h flags inp cid ?url ?ad (s1\<lparr>seedPage := p, deadline := Some ?d\<rparr>)")
    from keepsD [OF crawlWork_emits w]
    obtain evs where evs: "trace s2 = trace s1 @ evs" "\<forall>e \<in> set evs. isCall e"
      unfolding emits_def by auto
    have nofire: "TimeoutFired m \<notin> set evs" for m
    proof
      assume "TimeoutFired m \<in> set evs"
      with evs(2) have "isCall (TimeoutFired m)" by blast
      then show False by (simp add: isCall_def)
    qed
    show ?thesis
    proof (cases y)
      case (Returned u)
      have "trace s' = trace s @ NewPage # evs @ [ClosePage (seedPage s2)]"
        using run np \<open>x = Returned p\<close> w Returned t1 evs
        by (auto simp add: crawlItem_def Let_def createAsyncTimeout_def tryCatch_def race_def
              notAwaited_def)
      with fired nofire show ?thesis by auto
    next
      case (Threw e)
      have "\<exists>u. trace s' = trace s @ NewPage # evs @ [LogError (message e) u, ClosePage (seedPage s2)]"
        using run np \<open>x = Returned p\<close> w Threw t1 evs
        by (auto simp add: crawlItem_def Let_def createAsyncTimeout_def tryCatch_def race_def
              notAwaited_def ret_def logError_def)
      with fired nofire show ?thesis by auto
    next
      case TimedOut
      have "clock s' = max (clock s2) ?d"
        using run np \<open>x = Returned p\<close> w TimedOut
        by (auto simp add: crawlItem_def Let_def createAsyncTimeout_def tryCatch_def race_def
              notAwaited_def ret_def logError_def)
      then show ?thesis by simp
    next
      case Hung
      have "clock s' = max (clock s2) ?d"
        using run np \<open>x = Returned p\<close> w Hung
        by (auto simp add: crawlItem_def Let_def createAsyncTimeout_def tryCatch_def race_def
              notAwaited_def ret_def logError_def)
      then show ?thesis by simp
    qed
  next
    case (Threw e)
    with run np have "s' = s1" by (auto simp add: crawlItem_def Let_def)
    with fired t1 show ?thesis by simp
  next
    case TimedOut
    with run np have "s' = s1" by (auto simp add: crawlItem_def Let_def)
    with fired t1 show ?thesis by simp
  next
    case Hung
    with run np have "s' = s1" by (auto simp add: crawlItem_def Let_def)
    with fired t1 show ?thesis by simp
  qed
qed


lemmas item_defs = crawlItem_def crawlWork_def loadSeedPage_def race_def createAsyncTimeout_def
  OVERALL_TIMEOUT_def notAwaited_def logError_def logStrError_def clearTimeout_def
  loadAndHandlePage_def loadAndHandlePage_try_def scrollDownPage_def scrollLoop.simps
  findAndCrawlPagesWithAds.simps

lemma crawlLoop_step:
  assumes "i < length (crawlList inp)"
    and "crawlItem drv h flags inp cid i db s = (Returned u, db', s')"
  shows "crawlLoop drv h flags inp cid i db s = crawlLoop drv h flags inp cid (i + 1) db' s'"
  using assms by (subst crawlLoop.simps) simp

lemma crawlLoop_done:
  assumes "\<not> i < length (crawlList inp)"
  shows "crawlLoop drv h flags inp cid i db s = (Returned (), markCompleted (clock s) cid db, s)"
  using assms by (subst crawlLoop.simps) simp

text \<open>
  C4, as the code has it. The duration of the overall timeout is computed once, up front,
  as the number of targets times 15 minutes. It is not one wall-clock budget shared by
  the targets: a timer of that duration is started at the top of every loop iteration,
  so the timer fires for a target only when at least the whole duration has passed since
  that target's own iteration began, whatever happened to the targets before it.
\<close>

theorem overall_timer_restarts_for_each_target:
  "OVERALL_TIMEOUT inp = length (crawlList inp) * 15 * 60 * 1000
   \<and> (crawlItem drv h flags inp cid i db s = (r, db', s')
        \<and> (\<exists>m. TimeoutFired m \<in> set (drop (length (trace s)) (trace s')))
      \<longrightarrow> clock s + OVERALL_TIMEOUT inp \<le> clock s')"
  using crawlItem_timer [of drv h flags inp cid i db s r db' s']
  by (simp add: OVERALL_TIMEOUT_def)


theorem overall_timer_restarts_for_each_target_witness:
  "(\<exists>m. TimeoutFired m
          \<in> set (drop (length (trace state0))
                   (trace (snd (snd (crawlItem browserHangsOnA hostA flagsA inputA 7 0 db0
                                       state0))))))
   \<and> OVERALL_TIMEOUT inputA = 1800000
   \<and> clock state0 + OVERALL_TIMEOUT inputA
       \<le> clock (snd (snd (crawlItem browserHangsOnA hostA flagsA inputA 7 0 db0 state0)))"
proof -
  let ?run = "crawlItem browserHangsOnA hostA flagsA inputA 7 0 db0 state0"
  have tr: "trace (snd (snd ?run))
              = [NewPage, SetRequestInterception 1 True, Goto 1 ''https://a.example/'',
                 TimeoutFired ''https://a.example/: overall site timeout reached'',
                 LogError ''https://a.example/: overall site timeout reached'' ''about:blank'',
                 ClosePage 1]"
    by (simp add: item_defs run_defs browserHangsOnA_def scriptedBrowser_def
          flagsA_def inputA_def hostA_def state0_def)
  have fired: "\<exists>m. TimeoutFired m \<in> set (drop (length (trace state0)) (trace (snd (snd ?run))))"
    unfolding tr by (simp add: state0_def)
  have "?run = (fst ?run, fst (snd ?run), snd (snd ?run))" by simp
  with overall_timer_restarts_for_each_target
         [of inputA browserHangsOnA hostA flagsA 7 0 db0 state0
             "fst ?run" "fst (snd ?run)" "snd (snd ?run)"]
       fired
  show ?thesis by (simp add: inputA_def)
qed

text \<open>
  C4, as stated, fails. Two targets, so a duration of 30 minutes. The navigation to the
  first never settles, and its timer fires 30 minutes after the start. If that timer were
  shared, it would have elapsed for the second target too. But the second target gets a
  timer of its own: it is loaded to the end (12 seconds later its page-visit row has its
  address and no error), and no timer fires for it.
\<close>

theorem overall_timer_shared_counterexample:
  "TimeoutFired (crawlList inputA ! 0 @ '': overall site timeout reached'')
     \<in> set (trace (snd (snd (crawlLoop browserHangsOnA hostA flagsA inputA 7 0 db0 state0))))
   \<and> TimeoutFired (crawlList inputA ! 1 @ '': overall site timeout reached'')
     \<notin> set (trace (snd (snd (crawlLoop browserHangsOnA hostA flagsA inputA 7 0 db0 state0))))
   \<and> filter isTimeoutFired
       (trace (snd (snd (crawlLoop browserHangsOnA hostA flagsA inputA 7 0 db0 state0))))
     = [TimeoutFired ''https://a.example/: overall site timeout reached'']
   \<and> map (\<lambda>r. (original_url r, page_url r, page_error r))
       (page_tbl (snd (snd (crawlLoop browserHangsOnA hostA flagsA inputA 7 0 db0 state0))))
     = [(''https://a.example/'', None, None), (''https://b.example/'', Some ''about:blank'', None)]"
proof -
  let ?item = "crawlItem browserHangsOnA hostA flagsA inputA 7"
  define db1 where "db1 = fst (snd (?item 0 db0 state0))"
  define s1 where "s1 = snd (snd (?item 0 db0 state0))"
  define db2 where "db2 = fst (snd (?item 1 db1 s1))"
  define s2 where "s2 = snd (snd (?item 1 db1 s1))"
  have len: "length (crawlList inputA) = 2" by (simp add: inputA_def)
  have i0: "?item 0 db0 state0 = (Returned (), db1, s1)"
    unfolding db1_def s1_def
    by (simp add: item_defs run_defs browserHangsOnA_def scriptedBrowser_def
          flagsA_def inputA_def hostA_def state0_def)
  have f1: "clock s1 = 1800000" "deadline s1 = None" "browser s1 = 0" "next_page_id s1 = 2"
    "trace s1 = [NewPage, SetRequestInterception 1 True, Goto 1 ''https://a.example/'',
                 TimeoutFired ''https://a.example/: overall site timeout reached'',
                 LogError ''https://a.example/: overall site timeout reached'' ''about:blank'',
                 ClosePage 1]"
    "page_tbl s1
       = [\<lparr>page_id = 1, page_timestamp = 10, page_job_id = None, page_crawl_id = 7,
           original_url = ''https://a.example/'', page_type = MAIN, referrer_page = None,
           referrer_page_url = None, referrer_ad = None, reload = 0, page_url = None,
           page_error = None\<rparr>]"
    unfolding s1_def
    by (simp_all add: item_defs run_defs browserHangsOnA_def scriptedBrowser_def
          flagsA_def inputA_def hostA_def state0_def)
  have i1: "?item 1 db1 s1 = (Returned (), db2, s2)"
    unfolding db2_def s2_def using f1(1-4)
    by (simp add: item_defs run_defs browserHangsOnA_def scriptedBrowser_def
          flagsA_def inputA_def hostA_def)
  have f2: "filter isTimeoutFired (trace s2)
              = [TimeoutFired ''https://a.example/: overall site timeout reached'']"
    "map (\<lambda>r. (original_url r, page_url r, page_error r)) (page_tbl s2)
       = [(''https://a.example/'', None, None), (''https://b.example/'', Some ''about:blank'', None)]"
    unfolding s2_def using f1
    by (simp_all add: item_defs run_defs browserHangsOnA_def scriptedBrowser_def
          flagsA_def inputA_def hostA_def)
  have "crawlLoop browserHangsOnA hostA flagsA inputA 7 0 db0 state0
          = crawlLoop browserHangsOnA hostA flagsA inputA 7 (0 + 1) db1 s1"
    using len i0 by (intro crawlLoop_step) simp_all
  also have "\<dots> = crawlLoop browserHangsOnA hostA flagsA inputA 7 (1 + 1) db2 s2"
    using len i1 by (simp add: crawlLoop_step)
  also have "\<dots> = (Returned (), markCompleted (clock s2) 7 db2, s2)"
    using len by (simp add: crawlLoop_done)
  finally have run: "crawlLoop browserHangsOnA hostA flagsA inputA 7 0 db0 state0
                       = (Returned (), markCompleted (clock s2) 7 db2, s2)" .
  have "TimeoutFired m \<in> set (trace s2) \<longleftrightarrow> TimeoutFired m \<in> set (filter isTimeoutFired (trace s2))"
    for m by simp
  then have mem: "TimeoutFired m \<in> set (trace s2)
                    \<longleftrightarrow> m = ''https://a.example/: overall site timeout reached''" for m
    unfolding f2(1) by simp
  have u: "crawlList inputA ! 0 @ '': overall site timeout reached''
             = ''https://a.example/: overall site timeout reached''"
    "crawlList inputA ! 1 @ '': overall site timeout reached''
             = ''https://b.example/: overall site timeout reached''"
    by (simp_all add: inputA_def)
  show ?thesis unfolding run u using f2 mem by simp
qed

subsection \<open>The main loop\<close>

lemma added_andThen:
  assumes "keeps (pagesAdded f Q1) m" and "\<And>x. keeps (pagesAdded f Q2) (g x)"
    and "\<And>a b. Q1 a \<Longrightarrow> Q2 b \<Longrightarrow> Q (a @ b)" and "\<And>a. Q1 a \<Longrightarrow> Q a"
  shows "keeps (pagesAdded f Q) (andThen m g)"
  using assms(1) assms(2)
proof (rule keeps_andThen)
  fix s s1 s2 :: "'a state"
  assume "pagesAdded f Q1 s s1" and "pagesAdded f Q2 s1 s2"
  then obtain a b where "map f (page_tbl s1) = map f (page_tbl s) @ a" "Q1 a"
      "map f (page_tbl s2) = map f (page_tbl s1) @ b" "Q2 b"
    unfolding pagesAdded_def by blast
  then have "map f (page_tbl s2) = map f (page_tbl s) @ (a @ b)" "Q (a @ b)"
    using assms(3) by simp_all
  then show "pagesAdded f Q s s2" unfolding pagesAdded_def by blast
next
  fix s s1 :: "'a state"
  assume "pagesAdded f Q1 s s1"
  then show "pagesAdded f Q s s1" unfolding pagesAdded_def using assms(4) by blast
qed

lemma added_of_kept: "keeps (pagesKept f) m \<Longrightarrow> Q [] \<Longrightarrow> keeps (pagesAdded f Q) m"
  by (auto simp add: keeps_def pagesKept_def pagesAdded_def)

lemma added_tryCatch:
  assumes "keeps (pagesAdded f Q) m" and "\<And>e. keeps (pagesKept f) (h e)"
  shows "keeps (pagesAdded f Q) (tryCatch m h)"
proof (rule keepsI)
  fix s r s'
  assume run: "tryCatch m h s = (r, s')"
  show "pagesAdded f Q s s'"
  proof (cases "m s")
    case (Pair x s1)
    then have a: "pagesAdded f Q s s1" using assms(1) by (simp add: keeps_def)
    show ?thesis
    proof (cases x)
      case (Threw e)
      with Pair run have "h e s1 = (r, s')" by (simp add: tryCatch_def)
      then have "pagesKept f s1 s'" using assms(2) by (simp add: keeps_def)
      with a show ?thesis by (simp add: pagesAdded_def pagesKept_def)
    qed (use Pair run a in \<open>auto simp add: tryCatch_def\<close>)
  qed
qed

lemma added_tryFinally:
  assumes "keeps (pagesAdded f Q) m" and "\<And>s. page_tbl (fin s) = page_tbl s"
  shows "keeps (pagesAdded f Q) (tryFinally m fin)"
proof (rule keepsI)
  fix s r s'
  assume run: "tryFinally m fin s = (r, s')"
  show "pagesAdded f Q s s'"
  proof (cases "m s")
    case (Pair x s1)
    then have a: "pagesAdded f Q s s1" using assms(1) by (simp add: keeps_def)
    then have b: "pagesAdded f Q s (fin s1)" using assms(2) by (simp add: pagesAdded_def)
    show ?thesis using Pair run a b by (cases x) (auto simp add: tryFinally_def)
  qed
qed

lemma kept_throw: "keeps (pagesKept f) (throw e)"
  by (rule kept_same_table) (simp add: throw_def)

lemma kept_reads_await: "keeps (pagesKept f) (\<lambda>s. await (ev s) (call s) s)"
proof (rule keepsI)
  fix s r s'
  assume "await (ev s) (call s) s = (r, s')"
  with kept_await show "pagesKept f s s'" by (rule keepsD)
qed

lemma kept_update:
  "(\<And>s. page_tbl (g s) = page_tbl s) \<Longrightarrow> keeps (pagesKept f) (\<lambda>s. ret a (g s))"
  by (rule kept_same_table) (auto simp add: ret_def)

lemma kept_tryCatch:
  assumes "keeps (pagesKept f) m" and "\<And>e. keeps (pagesKept f) (h e)"
  shows "keeps (pagesKept f) (tryCatch m h)"
proof (rule keepsI)
  fix s r s'
  assume run: "tryCatch m h s = (r, s')"
  show "pagesKept f s s'"
  proof (cases "m s")
    case (Pair x s1)
    then have a: "pagesKept f s s1" using assms(1) by (simp add: keeps_def)
    show ?thesis
    proof (cases x)
      case (Threw e)
      with Pair run have "h e s1 = (r, s')" by (simp add: tryCatch_def)
      then have "pagesKept f s1 s'" using assms(2) by (simp add: keeps_def)
      with a show ?thesis by (simp add: pagesKept_def)
    qed (use Pair run a in \<open>auto simp add: tryCatch_def\<close>)
  qed
qed

lemma kept_updatePage_const:
  assumes "\<And>r. f (chg r) = f r"
  shows "keeps (pagesKept f) (updatePage pageId chg)"
  using assms by (auto simp add: keeps_def pagesKept_def updatePage_def)

lemma loadAndHandlePage_adds:
  "keeps (pagesAdded visitOf (\<lambda>ks. ks = [(cid, url, reload_count md)]))
         (loadAndHandlePage drv h flags cid url page md)"
proof (rule keepsI)
  fix s r s'
  assume run: "loadAndHandlePage drv h flags cid url page md s = (r, s')"
  let ?pid = "next_page_id s"
  let ?row = "\<lparr>page_id = ?pid, page_timestamp = clock s,
                    page_job_id = jobId flags, page_crawl_id = cid, original_url = url,
                    page_type = pageType md, referrer_page = referrerPageId md,
                    referrer_page_url = referrerPageUrl md, referrer_ad = referrerAd md,
                    reload = reload_count md, page_url = None, page_error = None\<rparr>"
  let ?handler = "\<lambda>e. andThen (updatePage ?pid (\<lambda>r. r\<lparr>page_error := Some (message e)\<rparr>))
                           (\<lambda>_. throw e)"
  define s0 where "s0 = s\<lparr>page_tbl := page_tbl s @ [?row], next_page_id := Suc ?pid\<rparr>"
  have tc: "tryCatch (loadAndHandlePage_try drv h flags cid url page md ?pid) ?handler s0 = (r, s')"
    using run by (simp add: loadAndHandlePage_def andThen_def archivePage_def s0_def)
  have "keeps (pagesKept visitOf)
          (tryCatch (loadAndHandlePage_try drv h flags cid url page md ?pid) ?handler)"
    by (intro kept_tryCatch kept_loadAndHandlePage_try kept_andThen kept_updatePage_const
              kept_throw)
       (simp_all add: visitOf_def)
  from keepsD [OF this tc]
  show "pagesAdded visitOf (\<lambda>ks. ks = [(cid, url, reload_count md)]) s s'"
    by (simp add: pagesKept_def pagesAdded_def s0_def visitOf_def)
qed

lemma loadSeedPage_adds:
  "keeps (pagesAdded visitOf (\<lambda>ks. ks = [(cid, url, rl)]))
         (loadSeedPage drv h flags inp cid url prevAdId rl)"
proof (rule keepsI)
  fix s r s'
  assume "loadSeedPage drv h flags inp cid url prevAdId rl s = (r, s')"
  then show "pagesAdded visitOf (\<lambda>ks. ks = [(cid, url, rl)]) s s'"
    by (auto simp add: loadSeedPage_def split: if_splits
             dest!: keepsD [OF loadAndHandlePage_adds])
qed

lemma grows_weaken: "keeps (pagesAdded f Q) m \<Longrightarrow> keeps (pagesAdded f anyRows) m"
  unfolding keeps_def pagesAdded_def anyRows_def by blast

lemma grows_andThen:
  assumes "keeps (pagesAdded f anyRows) m" and "\<And>x. keeps (pagesAdded f anyRows) (g x)"
  shows "keeps (pagesAdded f anyRows) (andThen m g)"
  using assms by (rule added_andThen) (simp_all add: anyRows_def)

lemma grows_of_kept: "keeps (pagesKept f) m \<Longrightarrow> keeps (pagesAdded f anyRows) m"
  by (rule added_of_kept) (simp_all add: anyRows_def)

lemma grows_loadAndHandlePage_reads:
  "keeps (pagesAdded visitOf anyRows)
     (\<lambda>s. loadAndHandlePage drv h flags cid url page (md s) s)"
proof (rule keepsI)
  fix s r s'
  assume "loadAndHandlePage drv h flags cid url page (md s) s = (r, s')"
  with grows_weaken [OF loadAndHandlePage_adds]
  show "pagesAdded visitOf anyRows s s'" by (rule keepsD)
qed

lemma grows_loadSubpage:
  "keeps (pagesAdded visitOf anyRows) (loadSubpage drv h flags cid target pageId rl)"
  unfolding loadSubpage_def
  by (intro grows_andThen grows_loadAndHandlePage_reads grows_of_kept [OF kept_await])

lemma grows_visitSubpage:
  "keeps (pagesAdded visitOf anyRows) (visitSubpage drv h flags cid target pageId)"
  unfolding visitSubpage_def
  by (intro grows_andThen keeps_if grows_loadSubpage grows_of_kept [OF kept_ret])

lemma grows_findAndCrawlPagesWithAds:
  "keeps (pagesAdded visitOf anyRows) (findAndCrawlPagesWithAds drv h flags cid url pageId i)"
proof (induction drv h flags cid url pageId i rule: findAndCrawlPagesWithAds.induct)
  case (1 drv h flags cid url pageId i)
  show ?case
  proof (cases "int i < findAndCrawlPageWithAds (crawlOptions flags)")
    case False
    have "findAndCrawlPagesWithAds drv h flags cid url pageId i = ret ()"
      by (subst findAndCrawlPagesWithAds.simps) (simp only: False if_False)
    then show ?thesis by (simp add: grows_of_kept [OF kept_ret])
  next
    case True
    have step: "keeps (pagesAdded visitOf anyRows)
                  (if truthy u
                   then andThen (visitSubpage drv h flags cid (the u) pageId)
                          (\<lambda>_. findAndCrawlPagesWithAds drv h flags cid url pageId (i + 1))
                   else (\<lambda>s. ret () (logStrError (url @ '': Could not find page with ads'') s)))"
      for u
    proof (cases "truthy u")
      case yes: True
      show ?thesis
        apply (simp only: yes if_True)
        apply (rule grows_andThen [OF grows_visitSubpage])
        apply (rule "1.IH" [OF True yes])
        done
    next
      case no: False
      show ?thesis
        apply (simp only: no if_False)
        apply (rule grows_of_kept [OF kept_update])
        apply (simp add: logStrError_def)
        done
    qed
    show ?thesis
      apply (subst findAndCrawlPagesWithAds.simps)
      apply (simp only: True if_True)
      apply (rule grows_andThen [OF grows_of_kept [OF kept_reads_await]])
      apply (rule step)
      done
  qed
qed

lemma crawlWork_adds:
  "keeps (pagesAdded visitOf (startsWith (cid, url, 0)))
         (crawlWork drv h flags inp cid url prevAdId)"
proof -
  have refresh: "keeps (pagesAdded visitOf anyRows)
          (if refreshPage (crawlOptions flags) then
             andThen (\<lambda>s. await (ClosePage (seedPage s)) (closePage drv (seedPage s)) s) (\<lambda>_.
             andThen (await NewPage (newPage drv)) (\<lambda>p.
             andThen (\<lambda>s. ret () (s\<lparr>seedPage := p\<rparr>)) (\<lambda>_.
             loadSeedPage drv h flags inp cid url prevAdId 1)))
           else ret pageId0)" for pageId0
    by (intro keeps_if grows_andThen grows_of_kept [OF kept_reads_await]
              grows_of_kept [OF kept_await] grows_of_kept [OF kept_update]
              grows_weaken [OF loadSeedPage_adds] grows_of_kept [OF kept_ret])
       simp
  have article: "keeps (pagesAdded visitOf anyRows)
          (if findAndCrawlArticlePage (crawlOptions flags) then
             andThen (\<lambda>s. await (FindArticle (seedPage s)) (findArticle drv (seedPage s)) s)
               (\<lambda>articleUrl.
                  if truthy articleUrl
                  then visitSubpage drv h flags cid (the articleUrl) pageId
                  else (\<lambda>s. ret () (logStrError (url @ '': Could not find article'') s)))
           else ret ())" for pageId
    by (intro keeps_if grows_andThen grows_of_kept [OF kept_reads_await] grows_visitSubpage
              grows_of_kept [OF kept_update] grows_of_kept [OF kept_ret])
       (simp add: logStrError_def)
  have rest: "keeps (pagesAdded visitOf anyRows)
          (andThen (if refreshPage (crawlOptions flags) then
             andThen (\<lambda>s. await (ClosePage (seedPage s)) (closePage drv (seedPage s)) s) (\<lambda>_.
             andThen (await NewPage (newPage drv)) (\<lambda>p.
             andThen (\<lambda>s. ret () (s\<lparr>seedPage := p\<rparr>)) (\<lambda>_.
             loadSeedPage drv h flags inp cid url prevAdId 1)))
           else ret pageId0) (\<lambda>pageId.
           andThen (if findAndCrawlArticlePage (crawlOptions flags) then
             andThen (\<lambda>s. await (FindArticle (seedPage s)) (findArticle drv (seedPage s)) s)
               (\<lambda>articleUrl.
                  if truthy articleUrl
                  then visitSubpage drv h flags cid (the articleUrl) pageId
                  else (\<lambda>s. ret () (logStrError (url @ '': Could not find article'') s)))
           else ret ()) (\<lambda>_.
           findAndCrawlPagesWithAds drv h flags cid url pageId 0)))" for pageId0
    by (intro grows_andThen refresh article grows_findAndCrawlPagesWithAds)
  show ?thesis
    unfolding crawlWork_def
    apply (rule added_tryFinally)
     apply (rule added_tryCatch)
      apply (rule added_andThen [OF loadSeedPage_adds rest])
       apply (simp add: startsWith_def)
      apply (simp add: startsWith_def)
     apply (rule kept_update)
     apply (simp add: logError_def)
    apply (simp add: clearTimeout_def)
    done
qed


lemma crawlItem_returns:
  assumes np: "newPage drv (browser s) = (Resolves p dur, b')" and dl: "deadline s = None"
  shows "\<exists>s'. crawlItem drv h flags inp cid i db s
                 = (Returned (), updateIndex (i + 1) cid db, s')
            \<and> deadline s' = None
            \<and> pagesAdded visitOf (startsWith (cid, crawlList inp ! i, 0)) s s'"
proof -
  let ?d = "clock s + OVERALL_TIMEOUT inp"
  let ?url = "crawlList inp ! i"
  let ?ad = "if isAdUrlCrawl inp \<and> i < length (crawlListAdIds inp)
             then Some (crawlListAdIds inp ! i) else None"
  define s1 where "s1 = s\<lparr>trace := trace s @ [NewPage], browser := b', clock := clock s + dur\<rparr>"
  have aw: "await NewPage (newPage drv) s = (Returned p, s1)"
    using np dl by (simp add: await_def s1_def)
  obtain y s2 where w: "crawlWork drv h flags inp cid ?url ?ad
                          (s1\<lparr>seedPage := p, deadline := Some ?d\<rparr>) = (y, s2)"
    by (cases "crawlWork drv h flags inp cid ?url ?ad (s1\<lparr>seedPage := p, deadline := Some ?d\<rparr>)")
  from keepsD [OF crawlWork_adds w]
  have grow: "\<exists>ks. map visitOf (page_tbl s2) = map visitOf (page_tbl s) @ ks
                \<and> startsWith (cid, ?url, 0) ks"
    by (simp add: pagesAdded_def s1_def)
  have "\<exists>s'. crawlItem drv h flags inp cid i db s = (Returned (), updateIndex (i + 1) cid db, s')
            \<and> deadline s' = None \<and> page_tbl s' = page_tbl s2"
    using aw w
    by (cases y)
       (simp_all add: crawlItem_def Let_def createAsyncTimeout_def tryCatch_def race_def
          notAwaited_def ret_def logError_def)
  with grow show ?thesis by (auto simp add: pagesAdded_def)
qed

lemma foldl_updateIndex_upt:
  "i < n \<Longrightarrow>
     foldl (\<lambda>d j. updateIndex (Suc j) cid d) db [i..<n]
       = foldl (\<lambda>d j. updateIndex (Suc j) cid d) (updateIndex (Suc i) cid db) [Suc i..<n]"
  by (simp add: upt_conv_Cons)

lemma crawlLoop_completes:
  assumes np: "\<forall>b. \<exists>p dur b'. newPage drv b = (Resolves p dur, b')"
  shows "deadline s = None \<Longrightarrow>
     \<exists>s' ks. crawlLoop drv h flags inp cid i db s
               = (Returned (),
                  markCompleted (clock s') cid
                    (foldl (\<lambda>d j. updateIndex (Suc j) cid d) db [i..<length (crawlList inp)]),
                  s')
          \<and> map visitOf (page_tbl s') = map visitOf (page_tbl s) @ ks
          \<and> (\<forall>j. i \<le> j \<and> j < length (crawlList inp)
                 \<longrightarrow> (cid, crawlList inp ! j, 0) \<in> set ks)"
proof (induction "length (crawlList inp) - i" arbitrary: i db s)
  case 0
  then have past: "\<not> i < length (crawlList inp)" by simp
  show ?case
    apply (rule exI [of _ s], rule exI [of _ "[]"])
    using past by (simp add: crawlLoop_done)
next
  case (Suc n)
  then have lt: "i < length (crawlList inp)" by simp
  from np obtain p dur b' where "newPage drv (browser s) = (Resolves p dur, b')" by blast
  from crawlItem_returns [OF this Suc.prems, of h flags inp cid i db]
  obtain s1 where item: "crawlItem drv h flags inp cid i db s
                           = (Returned (), updateIndex (i + 1) cid db, s1)"
    and dl1: "deadline s1 = None"
    and add1: "pagesAdded visitOf (startsWith (cid, crawlList inp ! i, 0)) s s1"
    by blast
  from add1 obtain more where tbl1:
      "map visitOf (page_tbl s1) = map visitOf (page_tbl s) @ (cid, crawlList inp ! i, 0) # more"
    by (auto simp add: pagesAdded_def startsWith_def)
  have n: "n = length (crawlList inp) - (i + 1)" using Suc.hyps(2) by simp
  from Suc.hyps(1) [OF n dl1, of "updateIndex (i + 1) cid db"]
  obtain s' ks where rest:
      "crawlLoop drv h flags inp cid (i + 1) (updateIndex (i + 1) cid db) s1
         = (Returned (),
            markCompleted (clock s') cid
              (foldl (\<lambda>d j. updateIndex (Suc j) cid d) (updateIndex (i + 1) cid db)
                 [i + 1..<length (crawlList inp)]),
            s')"
      "map visitOf (page_tbl s') = map visitOf (page_tbl s1) @ ks"
      "\<forall>j. i + 1 \<le> j \<and> j < length (crawlList inp) \<longrightarrow> (cid, crawlList inp ! j, 0) \<in> set ks"
    by blast
  have run: "crawlLoop drv h flags inp cid i db s
               = (Returned (),
                  markCompleted (clock s') cid
                    (foldl (\<lambda>d j. updateIndex (Suc j) cid d) db [i..<length (crawlList inp)]),
                  s')"
    using crawlLoop_step [OF lt item] rest(1) foldl_updateIndex_upt [OF lt, of cid db] by simp
  have tbl: "map visitOf (page_tbl s')
               = map visitOf (page_tbl s) @ ((cid, crawlList inp ! i, 0) # more @ ks)"
    using tbl1 rest(2) by simp
  have mem: "\<forall>j. i \<le> j \<and> j < length (crawlList inp)
                 \<longrightarrow> (cid, crawlList inp ! j, 0) \<in> set ((cid, crawlList inp ! i, 0) # more @ ks)"
  proof (intro allI impI)
    fix j assume j: "i \<le> j \<and> j < length (crawlList inp)"
    show "(cid, crawlList inp ! j, 0) \<in> set ((cid, crawlList inp ! i, 0) # more @ ks)"
    proof (cases "j = i")
      case True then show ?thesis by simp
    next
      case False
      with j have "i + 1 \<le> j \<and> j < length (crawlList inp)" by simp
      with rest(3) show ?thesis by simp
    qed
  qed
  from run tbl mem show ?case by blast
qed


lemma find_map_update:
  assumes "\<And>r. row_id (upd r) = row_id r"
  shows "find (\<lambda>r. row_id r = cid) (map (\<lambda>r. if row_id r = cid then upd r else r) xs)
           = map_option upd (find (\<lambda>r. row_id r = cid) xs)"
  using assms by (induction xs) auto

lemma findRun_updateIndex:
  "findRun cid (updateIndex k cid db)
     = map_option (\<lambda>r. r\<lparr>crawl_list_current_index := k\<rparr>) (findRun cid db)"
  unfolding findRun_def updateIndex_def
  using find_map_update [of "\<lambda>r. r\<lparr>crawl_list_current_index := k\<rparr>" cid "crawl_tbl db"]
  by simp

lemma findRun_markCompleted:
  "findRun cid (markCompleted t cid db)
     = map_option (\<lambda>r. r\<lparr>completed := True, completed_time := Some t\<rparr>) (findRun cid db)"
  unfolding findRun_def markCompleted_def
  using find_map_update [of "\<lambda>r. r\<lparr>completed := True, completed_time := Some t\<rparr>" cid
                            "crawl_tbl db"]
  by simp

lemma final_index:
  assumes "findRun cid db = Some row" and "crawl_list_current_index row = i"
  shows "i \<le> n \<Longrightarrow>
           \<exists>row'. findRun cid (foldl (\<lambda>d j. updateIndex (Suc j) cid d) db [i..<n]) = Some row'
                 \<and> crawl_list_current_index row' = n"
proof (induction n)
  case 0
  with assms show ?case by simp
next
  case (Suc n)
  show ?case
  proof (cases "i = Suc n")
    case True
    with assms show ?thesis by simp
  next
    case False
    with Suc.prems have le: "i \<le> n" by simp
    from Suc.IH [OF le] obtain row' where
      "findRun cid (foldl (\<lambda>d j. updateIndex (Suc j) cid d) db [i..<n]) = Some row'" by blast
    with le show ?thesis by (simp add: findRun_updateIndex)
  qed
qed

lemma added_rows:
  assumes "map f (page_tbl s') = map f (page_tbl s) @ ks" and "k \<in> set ks"
  shows "\<exists>row \<in> set (drop (length (page_tbl s)) (page_tbl s')). f row = k"
proof -
  have "ks = drop (length (page_tbl s)) (map f (page_tbl s'))"
    using assms(1) by simp
  then have "ks = map f (drop (length (page_tbl s)) (page_tbl s'))"
    by (simp add: drop_map)
  with assms(2) show ?thesis by auto
qed

lemma crawlLoop_stop:
  assumes "i < length (crawlList inp)"
    and "crawlItem drv h flags inp cid i db s = (r, db', s')" and "r \<noteq> Returned ()"
  shows "crawlLoop drv h flags inp cid i db s = (r, db', s')"
  using assms by (subst crawlLoop.simps) (cases r; simp)

lemma crawlItem_cases:
  assumes dl: "deadline s = None"
    and run: "crawlItem drv h flags inp cid i db s = (r, db', s')"
  shows "(r = Returned () \<and> db' = updateIndex (i + 1) cid db \<and> deadline s' = None
            \<and> pagesAdded visitOf (startsWith (cid, crawlList inp ! i, 0)) s s')
       \<or> (r \<noteq> Returned () \<and> db' = db \<and> trace s' = trace s @ [NewPage]
            \<and> (\<forall>p dur b'. newPage drv (browser s) \<noteq> (Resolves p dur, b')))"
proof (cases "newPage drv (browser s)")
  case (Pair rep b')
  show ?thesis
  proof (cases rep)
    case (Resolves p dur)
    with Pair have "newPage drv (browser s) = (Resolves p dur, b')" by simp
    from crawlItem_returns [OF this dl, of h flags inp cid i db] run
    show ?thesis by auto
  next
    case (RejectsWith e dur)
    with Pair dl run show ?thesis
      by (auto simp add: crawlItem_def Let_def await_def)
  next
    case Never
    with Pair dl run show ?thesis
      by (auto simp add: crawlItem_def Let_def await_def)
  qed
qed

lemma crawlLoop_cases:
  "deadline s = None \<Longrightarrow> crawlLoop drv h flags inp cid i db s = (r, db', s') \<Longrightarrow>
     (r = Returned ()
        \<and> db' = markCompleted (clock s') cid
                 (foldl (\<lambda>d j. updateIndex (Suc j) cid d) db [i..<length (crawlList inp)])
        \<and> (\<exists>ks. map visitOf (page_tbl s') = map visitOf (page_tbl s) @ ks
               \<and> (\<forall>j. i \<le> j \<and> j < length (crawlList inp)
                      \<longrightarrow> (cid, crawlList inp ! j, 0) \<in> set ks)
               \<and> (i < length (crawlList inp)
                      \<longrightarrow> startsWith (cid, crawlList inp ! i, 0) ks)))
     \<or> (r \<noteq> Returned () \<and> trace s' \<noteq> [] \<and> last (trace s') = NewPage)"
proof (induction "length (crawlList inp) - i" arbitrary: i db s)
  case 0
  then have past: "\<not> i < length (crawlList inp)" by simp
  with "0.prems"(2) show ?case by (auto simp add: crawlLoop_done)
next
  case (Suc n)
  then have lt: "i < length (crawlList inp)" by simp
  obtain x db1 s1 where item: "crawlItem drv h flags inp cid i db s = (x, db1, s1)"
    by (cases "crawlItem drv h flags inp cid i db s") auto
  from crawlItem_cases [OF Suc.prems(1) item]
  show ?case
  proof (elim disjE conjE)
    assume x: "x = Returned ()" and db1: "db1 = updateIndex (i + 1) cid db"
      and dl1: "deadline s1 = None"
      and add1: "pagesAdded visitOf (startsWith (cid, crawlList inp ! i, 0)) s s1"
    from add1 obtain more where tbl1:
      "map visitOf (page_tbl s1) = map visitOf (page_tbl s) @ (cid, crawlList inp ! i, 0) # more"
      by (auto simp add: pagesAdded_def startsWith_def)
    have n: "n = length (crawlList inp) - (i + 1)" using Suc.hyps(2) by simp
    have next_run: "crawlLoop drv h flags inp cid (i + 1) db1 s1 = (r, db', s')"
      using crawlLoop_step [OF lt item [unfolded x]] Suc.prems(2) by simp
    from Suc.hyps(1) [OF n dl1 next_run]
    show ?thesis
    proof (elim disjE conjE exE)
      assume r: "r = Returned ()"
        and dbf: "db' = markCompleted (clock s') cid
                   (foldl (\<lambda>d j. updateIndex (Suc j) cid d) db1 [i + 1..<length (crawlList inp)])"
      fix ks
      assume tbl: "map visitOf (page_tbl s') = map visitOf (page_tbl s1) @ ks"
        and mem: "\<forall>j. i + 1 \<le> j \<and> j < length (crawlList inp)
                     \<longrightarrow> (cid, crawlList inp ! j, 0) \<in> set ks"
      have dbf': "db' = markCompleted (clock s') cid
                   (foldl (\<lambda>d j. updateIndex (Suc j) cid d) db [i..<length (crawlList inp)])"
        using dbf db1 foldl_updateIndex_upt [OF lt, of cid db] by simp
      have tbl': "map visitOf (page_tbl s')
               = map visitOf (page_tbl s) @ ((cid, crawlList inp ! i, 0) # more @ ks)"
        using tbl1 tbl by simp
      have mem': "\<forall>j. i \<le> j \<and> j < length (crawlList inp)
                 \<longrightarrow> (cid, crawlList inp ! j, 0) \<in> set ((cid, crawlList inp ! i, 0) # more @ ks)"
      proof (intro allI impI)
        fix j assume j: "i \<le> j \<and> j < length (crawlList inp)"
        show "(cid, crawlList inp ! j, 0) \<in> set ((cid, crawlList inp ! i, 0) # more @ ks)"
        proof (cases "j = i")
          case True then show ?thesis by simp
        next
          case False
          with j have "i + 1 \<le> j \<and> j < length (crawlList inp)" by simp
          with mem show ?thesis by simp
        qed
      qed
      have first': "startsWith (cid, crawlList inp ! i, 0)
                      ((cid, crawlList inp ! i, 0) # more @ ks)"
        by (simp add: startsWith_def)
      from r dbf' tbl' mem' first' show ?thesis by blast
    next
      assume "r \<noteq> Returned ()" "trace s' \<noteq> []" "last (trace s') = NewPage"
      then show ?thesis by blast
    qed
  next
    assume x: "x \<noteq> Returned ()" and "db1 = db" and tr: "trace s1 = trace s @ [NewPage]"
    from crawlLoop_stop [OF lt item x] Suc.prems(2)
    have "r = x" "s' = s1" by simp_all
    with x tr show ?thesis by simp
  qed
qed


text \<open>
  C1. Nothing that happens while a target is processed leaves the main loop. Whatever the
  navigation, the capture and the exploration of a target do (return, throw, never settle
  so that the timer fires), the iteration returns normally, with the run's current index
  set to the index plus one; the one exception is a failure to open the target's tab
  (\<^verbatim>\<open>BROWSER.newPage()\<close> at line 286 is outside the \<^verbatim>\<open>try\<close> block), which is the only
  way the loop ends early. So when tabs can be opened, the loop runs from its starting
  index to the end of the list and returns. When it returns, the index has been written
  after every target and the run has been marked completed after the last; every target
  from the starting index on has been attempted (its page-visit row, reload 0, is among
  the rows added); and a run record whose stored index was the starting index ends with
  a current index equal to the list length and with the completed flag set.
\<close>

theorem failures_do_not_stop_the_crawl:
  assumes dl: "deadline s = None"
    and run: "crawlLoop drv h flags inp cid i db s = (r, db', s')"
  shows "(r \<noteq> Returned () \<longrightarrow> trace s' \<noteq> [] \<and> last (trace s') = NewPage)
       \<and> ((\<forall>b. \<exists>p dur b'. newPage drv b = (Resolves p dur, b')) \<longrightarrow> r = Returned ())
       \<and> (r = Returned () \<longrightarrow>
             db' = markCompleted (clock s') cid
                     (foldl (\<lambda>d j. updateIndex (Suc j) cid d) db [i..<length (crawlList inp)])
           \<and> (\<forall>j. i \<le> j \<and> j < length (crawlList inp)
                  \<longrightarrow> (\<exists>row \<in> set (drop (length (page_tbl s)) (page_tbl s')).
                         page_crawl_id row = cid \<and> original_url row = crawlList inp ! j
                         \<and> reload row = 0))
           \<and> (\<forall>row. findRun cid db = Some row \<and> crawl_list_current_index row = i
                      \<and> i \<le> length (crawlList inp)
                  \<longrightarrow> (\<exists>row'. findRun cid db' = Some row'
                             \<and> crawl_list_current_index row' = length (crawlList inp)
                             \<and> completed row')))
       \<and> (deadline t = None \<and> crawlItem drv h flags inp cid k dbk t = (x, dbx, t')
            \<longrightarrow> (x = Returned () \<and> dbx = updateIndex (k + 1) cid dbk \<and> deadline t' = None)
              \<or> (x \<noteq> Returned () \<and> dbx = dbk \<and> trace t' = trace t @ [NewPage]
                  \<and> (\<forall>p dur b'. newPage drv (browser t) \<noteq> (Resolves p dur, b'))))"
proof -
  let ?dbf = "foldl (\<lambda>d j. updateIndex (Suc j) cid d) db [i..<length (crawlList inp)]"
  note cases = crawlLoop_cases [OF dl run]
  have stops: "r \<noteq> Returned () \<longrightarrow> trace s' \<noteq> [] \<and> last (trace s') = NewPage"
    using cases by blast
  have opens: "(\<forall>b. \<exists>p dur b'. newPage drv b = (Resolves p dur, b')) \<longrightarrow> r = Returned ()"
  proof
    assume np: "\<forall>b. \<exists>p dur b'. newPage drv b = (Resolves p dur, b')"
    from crawlLoop_completes [OF np dl, of h flags inp cid i db] run
    show "r = Returned ()" by auto
  qed
  have completes: "r = Returned () \<longrightarrow>
             db' = markCompleted (clock s') cid ?dbf
           \<and> (\<forall>j. i \<le> j \<and> j < length (crawlList inp)
                  \<longrightarrow> (\<exists>row \<in> set (drop (length (page_tbl s)) (page_tbl s')).
                         page_crawl_id row = cid \<and> original_url row = crawlList inp ! j
                         \<and> reload row = 0))
           \<and> (\<forall>row. findRun cid db = Some row \<and> crawl_list_current_index row = i
                      \<and> i \<le> length (crawlList inp)
                  \<longrightarrow> (\<exists>row'. findRun cid db' = Some row'
                             \<and> crawl_list_current_index row' = length (crawlList inp)
                             \<and> completed row'))"
  proof
    assume r: "r = Returned ()"
    with cases obtain ks where dbf: "db' = markCompleted (clock s') cid ?dbf"
      and tbl: "map visitOf (page_tbl s') = map visitOf (page_tbl s) @ ks"
      and mem: "\<forall>j. i \<le> j \<and> j < length (crawlList inp)
                   \<longrightarrow> (cid, crawlList inp ! j, 0) \<in> set ks"
      by blast
    have visited: "\<forall>j. i \<le> j \<and> j < length (crawlList inp)
                  \<longrightarrow> (\<exists>row \<in> set (drop (length (page_tbl s)) (page_tbl s')).
                         page_crawl_id row = cid \<and> original_url row = crawlList inp ! j
                         \<and> reload row = 0)"
    proof (intro allI impI)
      fix j assume "i \<le> j \<and> j < length (crawlList inp)"
      with mem have "(cid, crawlList inp ! j, 0) \<in> set ks" by blast
      from added_rows [OF tbl this]
      show "\<exists>row \<in> set (drop (length (page_tbl s)) (page_tbl s')).
              page_crawl_id row = cid \<and> original_url row = crawlList inp ! j \<and> reload row = 0"
        by (auto simp add: visitOf_def)
    qed
    have final: "\<forall>row. findRun cid db = Some row \<and> crawl_list_current_index row = i
                      \<and> i \<le> length (crawlList inp)
                  \<longrightarrow> (\<exists>row'. findRun cid db' = Some row'
                             \<and> crawl_list_current_index row' = length (crawlList inp)
                             \<and> completed row')"
    proof (intro allI impI)
      fix row
      assume a: "findRun cid db = Some row \<and> crawl_list_current_index row = i
                   \<and> i \<le> length (crawlList inp)"
      then obtain row' where "findRun cid ?dbf = Some row'"
          "crawl_list_current_index row' = length (crawlList inp)"
        using final_index [of cid db row i "length (crawlList inp)"] by blast
      then show "\<exists>row'. findRun cid db' = Some row'
                             \<and> crawl_list_current_index row' = length (crawlList inp)
                             \<and> completed row'"
        by (simp add: dbf findRun_markCompleted)
    qed
    from dbf visited final
    show "db' = markCompleted (clock s') cid ?dbf
           \<and> (\<forall>j. i \<le> j \<and> j < length (crawlList inp)
                  \<longrightarrow> (\<exists>row \<in> set (drop (length (page_tbl s)) (page_tbl s')).
                         page_crawl_id row = cid \<and> original_url row = crawlList inp ! j
                         \<and> reload row = 0))
           \<and> (\<forall>row. findRun cid db = Some row \<and> crawl_list_current_index row = i
                      \<and> i \<le> length (crawlList inp)
                  \<longrightarrow> (\<exists>row'. findRun cid db' = Some row'
                             \<and> crawl_list_current_index row' = length (crawlList inp)
                             \<and> completed row'))"
      by blast
  qed
  have each: "deadline t = None \<and> crawlItem drv h flags inp cid k dbk t = (x, dbx, t')
            \<longrightarrow> (x = Returned () \<and> dbx = updateIndex (k + 1) cid dbk \<and> deadline t' = None)
              \<or> (x \<noteq> Returned () \<and> dbx = dbk \<and> trace t' = trace t @ [NewPage]
                  \<and> (\<forall>p dur b'. newPage drv (browser t) \<noteq> (Resolves p dur, b')))"
    using crawlItem_cases [of t drv h flags inp cid k dbk x dbx t'] by blast
  from stops opens completes each show ?thesis by blast
qed


theorem failures_do_not_stop_the_crawl_witness:
  "(\<forall>b. \<exists>p dur b'. newPage browserNavFails b = (Resolves p dur, b'))
   \<and> deadline state0 = None
   \<and> findRun 7 db0 = Some (runR\<lparr>crawl_list_current_index := 0\<rparr>)
   \<and> fst (crawlLoop browserNavFails hostA flagsA inputA 7 0 db0 state0) = Returned ()
   \<and> (\<exists>row'. findRun 7 (fst (snd (crawlLoop browserNavFails hostA flagsA inputA 7 0 db0 state0)))
                = Some row'
             \<and> crawl_list_current_index row' = 2 \<and> completed row')
   \<and> map (\<lambda>r. (original_url r, page_error r))
        (page_tbl (snd (snd (crawlLoop browserNavFails hostA flagsA inputA 7 0 db0 state0))))
       = [(''https://a.example/'', Some ''net::ERR_NAME_NOT_RESOLVED''),
          (''https://b.example/'', Some ''net::ERR_NAME_NOT_RESOLVED'')]"
proof -
  have np: "\<forall>b. \<exists>p dur b'. newPage browserNavFails b = (Resolves p dur, b')"
    by (simp add: browserNavFails_def scriptedBrowser_def)
  have dl: "deadline state0 = None" by (simp add: state0_def)
  have fr: "findRun 7 db0 = Some (runR\<lparr>crawl_list_current_index := 0\<rparr>)"
    by (simp add: findRun_def db0_def runR_def)
  have len: "length (crawlList inputA) = 2" by (simp add: inputA_def)
  let ?run = "crawlLoop browserNavFails hostA flagsA inputA 7 0 db0 state0"
  have "?run = (fst ?run, fst (snd ?run), snd (snd ?run))" by simp
  note whole = failures_do_not_stop_the_crawl [OF dl this]
  from whole np have ret: "fst ?run = Returned ()" by blast
  with whole have "\<forall>row. findRun 7 db0 = Some row \<and> crawl_list_current_index row = 0
                      \<and> 0 \<le> length (crawlList inputA)
                  \<longrightarrow> (\<exists>row'. findRun 7 (fst (snd ?run)) = Some row'
                             \<and> crawl_list_current_index row' = length (crawlList inputA)
                             \<and> completed row')"
    by blast
  then have "\<exists>row'. findRun 7 (fst (snd ?run)) = Some row'
                             \<and> crawl_list_current_index row' = length (crawlList inputA)
                             \<and> completed row'"
    using fr by simp
  with ret len
  have main: "fst (crawlLoop browserNavFails hostA flagsA inputA 7 0 db0 state0) = Returned ()
   \<and> (\<exists>row'. findRun 7 (fst (snd (crawlLoop browserNavFails hostA flagsA inputA 7 0 db0 state0)))
                = Some row'
             \<and> crawl_list_current_index row' = 2 \<and> completed row')"
    by simp
  let ?item = "crawlItem browserNavFails hostA flagsA inputA 7"
  define db1 where "db1 = fst (snd (?item 0 db0 state0))"
  define s1 where "s1 = snd (snd (?item 0 db0 state0))"
  define db2 where "db2 = fst (snd (?item 1 db1 s1))"
  define s2 where "s2 = snd (snd (?item 1 db1 s1))"
  have i0: "?item 0 db0 state0 = (Returned (), db1, s1)"
    unfolding db1_def s1_def
    by (simp add: item_defs run_defs browserNavFails_def scriptedBrowser_def
          flagsA_def inputA_def hostA_def state0_def)
  have f1: "deadline s1 = None" "browser s1 = 0" "next_page_id s1 = 2"
    "page_tbl s1
       = [\<lparr>page_id = 1, page_timestamp = 10, page_job_id = None, page_crawl_id = 7,
           original_url = ''https://a.example/'', page_type = MAIN, referrer_page = None,
           referrer_page_url = None, referrer_ad = None, reload = 0, page_url = None,
           page_error = Some ''net::ERR_NAME_NOT_RESOLVED''\<rparr>]"
    unfolding s1_def
    by (simp_all add: item_defs run_defs browserNavFails_def scriptedBrowser_def
          flagsA_def inputA_def hostA_def state0_def)
  have i1: "?item 1 db1 s1 = (Returned (), db2, s2)"
    unfolding db2_def s2_def using f1(1-3)
    by (simp add: item_defs run_defs browserNavFails_def scriptedBrowser_def
          flagsA_def inputA_def hostA_def)
  have f2: "map (\<lambda>r. (original_url r, page_error r)) (page_tbl s2)
       = [(''https://a.example/'', Some ''net::ERR_NAME_NOT_RESOLVED''),
          (''https://b.example/'', Some ''net::ERR_NAME_NOT_RESOLVED'')]"
    unfolding s2_def using f1
    by (simp add: item_defs run_defs browserNavFails_def scriptedBrowser_def
          flagsA_def inputA_def hostA_def)
  have "crawlLoop browserNavFails hostA flagsA inputA 7 0 db0 state0
          = crawlLoop browserNavFails hostA flagsA inputA 7 (0 + 1) db1 s1"
    using len i0 by (intro crawlLoop_step) simp_all
  also have "\<dots> = crawlLoop browserNavFails hostA flagsA inputA 7 (1 + 1) db2 s2"
    using len i1 by (simp add: crawlLoop_step)
  also have "\<dots> = (Returned (), markCompleted (clock s2) 7 db2, s2)"
    using len by (simp add: crawlLoop_done)
  finally have run: "crawlLoop browserNavFails hostA flagsA inputA 7 0 db0 state0
                       = (Returned (), markCompleted (clock s2) 7 db2, s2)" .
  have rows: "map (\<lambda>r. (original_url r, page_error r))
        (page_tbl (snd (snd (crawlLoop browserNavFails hostA flagsA inputA 7 0 db0 state0))))
       = [(''https://a.example/'', Some ''net::ERR_NAME_NOT_RESOLVED''),
          (''https://b.example/'', Some ''net::ERR_NAME_NOT_RESOLVED'')]"
    unfolding run using f2 by simp
  from np dl fr main rows show ?thesis by blast
qed

subsection \<open>Resuming a run\<close>

lemma await_frame:
  "await ev call s = (r, s') \<Longrightarrow> page_tbl s' = page_tbl s \<and> deadline s' = deadline s"
  by (auto simp add: await_def Let_def split: prod.splits if_splits reply.splits)

lemma launchAndCrawl_returns:
  assumes "launchAndCrawl drv h flags inp cid k db s = (Returned (), db', s')"
  obtains s1 where "crawlLoop drv h flags inp cid k db s1 = (Returned (), db', s')"
    and "page_tbl s1 = page_tbl s" and "deadline s1 = deadline s"
proof -
  obtain x s1 where l: "andThen (await Launch (launch drv)) (\<lambda>_. await Version (version drv)) s
                          = (x, s1)"
    by (cases "andThen (await Launch (launch drv)) (\<lambda>_. await Version (version drv)) s")
  with assms obtain v where x: "x = Returned v"
    by (cases x) (auto simp add: launchAndCrawl_def)
  from l x obtain u s0 where "await Launch (launch drv) s = (Returned u, s0)"
      "await Version (version drv) s0 = (Returned v, s1)"
    by (auto elim: andThen_ReturnedE)
  then have "page_tbl s1 = page_tbl s" "deadline s1 = deadline s"
    by (auto dest!: await_frame)
  moreover have "crawlLoop drv h flags inp cid k db s1 = (Returned (), db', s')"
    using assms l x by (simp add: launchAndCrawl_def)
  ultimately show ?thesis using that by blast
qed

text \<open>
  C2. With a crawl name and resumption requested, the code looks at the first row that
  the query by name returns (\<^verbatim>\<open>prevCrawl.rows[0]\<close>), and at no other. When that row is not
  completed and its list-file basename and list length match the inputs, the engine takes
  that row's id and its stored current index \<open>k\<close> as the starting index of the main loop,
  and the \<^verbatim>\<open>crawl\<close> table is left as it is (no new run record). Processing begins at
  \<open>k\<close>: when \<open>k\<close> is within the list and the crawl returns, the first page visit it has
  recorded is that of target \<open>k\<close>, under that row's id. (Read for any prior run of that
  name that is not completed, the statement fails: see below.)
\<close>

theorem resume_starts_at_stored_index:
  assumes "crawlName flags = Some n" and "n \<noteq> []" and "resumeIfAble flags"
    and "validateCrawlList h inp = None"
    and "selectByName n db = prev # others"
    and "crawl_list prev = Some f"
    and "basename f = basename (crawlListFile inp)"
    and "crawl_list_length prev = length (crawlList inp)"
    and "\<not> completed prev"
  shows "resolveRun h flags inp now db
           = Proceeds (row_id prev) (crawl_list_current_index prev) db
       \<and> crawl drv h flags inp db s
           = (case launchAndCrawl drv h flags inp
                     (row_id prev) (crawl_list_current_index prev) db s
              of (r, db', s') \<Rightarrow> (Settled r, db', s'))
       \<and> (deadline s = None \<and> crawl_list_current_index prev < length (crawlList inp)
            \<and> crawl drv h flags inp db s = (Settled (Returned ()), db', s')
          \<longrightarrow> length (page_tbl s) < length (page_tbl s')
            \<and> page_crawl_id (page_tbl s' ! length (page_tbl s)) = row_id prev
            \<and> original_url (page_tbl s' ! length (page_tbl s))
                = crawlList inp ! crawl_list_current_index prev
            \<and> reload (page_tbl s' ! length (page_tbl s)) = 0)"
proof -
  let ?k = "crawl_list_current_index prev"
  have r: "resolveRun h flags inp t db = Proceeds (row_id prev) ?k db" for t
    using assms by (simp add: resolveRun_def)
  have c: "crawl drv h flags inp db s
           = (case launchAndCrawl drv h flags inp (row_id prev) ?k db s
              of (r, db', s') \<Rightarrow> (Settled r, db', s'))"
    using assms(4) r by (simp add: crawl_def)
  have first: "length (page_tbl s) < length (page_tbl s')
            \<and> page_crawl_id (page_tbl s' ! length (page_tbl s)) = row_id prev
            \<and> original_url (page_tbl s' ! length (page_tbl s)) = crawlList inp ! ?k
            \<and> reload (page_tbl s' ! length (page_tbl s)) = 0"
    if dl: "deadline s = None" and lt: "?k < length (crawlList inp)"
      and run: "crawl drv h flags inp db s = (Settled (Returned ()), db', s')"
  proof -
    from run c have "launchAndCrawl drv h flags inp (row_id prev) ?k db s = (Returned (), db', s')"
      by (auto split: prod.splits)
    then obtain s1 where loop: "crawlLoop drv h flags inp (row_id prev) ?k db s1
                                  = (Returned (), db', s')"
      and tbl1: "page_tbl s1 = page_tbl s" and dl1: "deadline s1 = deadline s"
      by (rule launchAndCrawl_returns)
    from crawlLoop_cases [OF _ loop] dl dl1 lt
    obtain ks where "map visitOf (page_tbl s') = map visitOf (page_tbl s1) @ ks"
        "startsWith (row_id prev, crawlList inp ! ?k, 0) ks"
      by auto
    then obtain more where m: "map visitOf (page_tbl s')
        = map visitOf (page_tbl s) @ (row_id prev, crawlList inp ! ?k, 0) # more"
      using tbl1 by (auto simp add: startsWith_def)
    from arg_cong [OF m, of length]
    have len: "length (page_tbl s) < length (page_tbl s')" by simp
    have "map visitOf (page_tbl s') ! length (page_tbl s) = (row_id prev, crawlList inp ! ?k, 0)"
      unfolding m by (simp add: nth_append)
    with len have "visitOf (page_tbl s' ! length (page_tbl s))
                     = (row_id prev, crawlList inp ! ?k, 0)"
      by simp
    with len show ?thesis by (simp add: visitOf_def)
  qed
  from r c first show ?thesis by blast
qed


theorem resume_starts_at_stored_index_witness:
  "selectByName ''R'' dbResumableFirst = [runR, runDoneSecond]
   \<and> resolveRun hostA flagsA inputA 50 dbResumableFirst = Proceeds 7 1 dbResumableFirst
   \<and> fst (crawl browserOk hostA flagsA inputA dbResumableFirst state0) = Settled (Returned ())
   \<and> original_url (page_tbl (snd (snd (crawl browserOk hostA flagsA inputA dbResumableFirst
                                           state0))) ! 0)
       = ''https://b.example/''
   \<and> page_crawl_id (page_tbl (snd (snd (crawl browserOk hostA flagsA inputA dbResumableFirst
                                            state0))) ! 0) = 7"
proof -
  have sel: "selectByName ''R'' dbResumableFirst = runR # [runDoneSecond]"
    by (simp add: selectByName_def dbResumableFirst_def runR_def runDoneSecond_def)
  have bn: "basename ''/old/list.txt'' = basename (crawlListFile inputA)"
    by (simp add: basename_def inputA_def)
  have np: "\<forall>b. \<exists>p dur b'. newPage browserOk b = (Resolves p dur, b')"
    by (simp add: browserOk_def scriptedBrowser_def)
  define sL where
    "sL = snd (andThen (await Launch (launch browserOk)) (\<lambda>_. await Version (version browserOk))
                 state0)"
  have l: "andThen (await Launch (launch browserOk)) (\<lambda>_. await Version (version browserOk)) state0
             = (Returned ''Chrome'', sL)"
    unfolding sL_def by (simp add: run_defs browserOk_def scriptedBrowser_def state0_def)
  have dlL: "deadline sL = None"
    unfolding sL_def by (simp add: run_defs browserOk_def scriptedBrowser_def state0_def)
  from crawlLoop_completes [OF np dlL, of hostA flagsA inputA 7 1 dbResumableFirst]
  obtain s' db' where loop: "crawlLoop browserOk hostA flagsA inputA 7 1 dbResumableFirst sL
                               = (Returned (), db', s')"
    by blast
  have lc: "launchAndCrawl browserOk hostA flagsA inputA 7 1 dbResumableFirst state0
              = (Returned (), db', s')"
    using l loop by (simp add: launchAndCrawl_def)
  note whole = resume_starts_at_stored_index
                 [of flagsA "''R''" hostA inputA dbResumableFirst runR "[runDoneSecond]"
                     "''/old/list.txt''" 50 browserOk state0 db' s']
  have hyps: "crawlName flagsA = Some ''R''" "''R'' \<noteq> []" "resumeIfAble flagsA"
      "crawl_list runR = Some ''/old/list.txt''"
      "crawl_list_length runR = length (crawlList inputA)" "\<not> completed runR"
      "crawl_list_current_index runR = 1" "row_id runR = 7"
    by (simp_all add: flagsA_def runR_def inputA_def)
  from whole [OF hyps(1-3) validate_inputA sel hyps(4) bn hyps(5,6)]
  have res: "resolveRun hostA flagsA inputA 50 dbResumableFirst = Proceeds 7 1 dbResumableFirst"
    and cr: "crawl browserOk hostA flagsA inputA dbResumableFirst state0
               = (Settled (Returned ()), db', s')"
    and first: "deadline state0 = None \<and> 1 < length (crawlList inputA)
            \<and> crawl browserOk hostA flagsA inputA dbResumableFirst state0
                = (Settled (Returned ()), db', s')
          \<longrightarrow> original_url (page_tbl s' ! length (page_tbl state0)) = crawlList inputA ! 1
            \<and> page_crawl_id (page_tbl s' ! length (page_tbl state0)) = 7"
    using lc by (simp_all add: hyps(7,8))
  from first cr have "original_url (page_tbl s' ! 0) = ''https://b.example/''"
      "page_crawl_id (page_tbl s' ! 0) = 7"
    by (simp_all add: state0_def inputA_def)
  with sel res cr show ?thesis by simp
qed

text \<open>
  C2, as stated for any prior run of that name that is not completed, fails. Run 7 of the
  name \<open>R\<close> is completed. A crawl of the same name without resumption inserts run 8 (index
  0, not completed) for the same list. A later invocation with resumption then has a prior
  run of that name, run 8, that is not completed and whose list-file basename and list
  length match, but the first row is run 7: \<^verbatim>\<open>crawl\<close> exits with the diagnostic for a
  completed crawl, and the identity and index of run 8 are not returned.
\<close>

theorem resume_first_row_completed_counterexample:
  "resolveRun hostA (flagsA\<lparr>resumeIfAble := False\<rparr>) inputA 50 dbDone
     = Proceeds 8 0 dbDoneThenNew
   \<and> crawlName flagsA = Some ''R'' \<and> resumeIfAble flagsA
   \<and> selectByName ''R'' dbDoneThenNew = [runDoneFirst, runNew]
   \<and> \<not> completed runNew
   \<and> map_option basename (crawl_list runNew) = Some (basename (crawlListFile inputA))
   \<and> crawl_list_length runNew = length (crawlList inputA)
   \<and> resolveRun hostA flagsA inputA 60 dbDoneThenNew = Exits (AlreadyCompleted ''R'')
   \<and> crawl browserOk hostA flagsA inputA dbDoneThenNew state0
       = (ProcessExit (AlreadyCompleted ''R''), dbDoneThenNew, state0)"
proof -
  have sel1: "selectByName ''R'' dbDone = [runDoneFirst]"
    by (simp add: selectByName_def dbDone_def runDoneFirst_def)
  have made: "resolveRun hostA (flagsA\<lparr>resumeIfAble := False\<rparr>) inputA 50 dbDone
                = Proceeds 8 0 dbDoneThenNew"
    by (simp add: resolveRun_def sel1 createCrawlEntry_def insertCrawl_def flagsA_def inputA_def
                  hostA_def dbDone_def dbDoneThenNew_def runNew_def)
  have sel: "selectByName ''R'' dbDoneThenNew = [runDoneFirst, runNew]"
    by (simp add: selectByName_def dbDoneThenNew_def runDoneFirst_def runNew_def)
  have new: "\<not> completed runNew"
      "map_option basename (crawl_list runNew) = Some (basename (crawlListFile inputA))"
      "crawl_list_length runNew = length (crawlList inputA)"
    by (simp_all add: runNew_def inputA_def)
  have res: "resolveRun hostA flagsA inputA t dbDoneThenNew = Exits (AlreadyCompleted ''R'')" for t
    by (simp add: resolveRun_def sel flagsA_def inputA_def runDoneFirst_def basename_def)
  have cr: "crawl browserOk hostA flagsA inputA dbDoneThenNew state0
       = (ProcessExit (AlreadyCompleted ''R''), dbDoneThenNew, state0)"
    by (simp add: crawl_def validate_inputA res)
  have fl: "crawlName flagsA = Some ''R''" "resumeIfAble flagsA" by (simp_all add: flagsA_def)
  from made fl sel new res cr show ?thesis by blast
qed

lemma dbResumableFirst_made:
  "fst (snd (crawl browserOk hostA (flagsA\<lparr>resumeIfAble := False\<rparr>) inputA dbR state0))
     = dbResumableFirst"
proof -
  let ?fl = "flagsA\<lparr>resumeIfAble := False\<rparr>"
  have sel: "selectByName ''R'' dbR = [runR]"
    by (simp add: selectByName_def dbR_def runR_def)
  define dbN where "dbN = snd (createCrawlEntry hostA ?fl inputA 0 dbR)"
  have res: "resolveRun hostA ?fl inputA 0 dbR = Proceeds 8 0 dbN"
    unfolding dbN_def
    by (simp add: resolveRun_def sel createCrawlEntry_def insertCrawl_def flagsA_def inputA_def
                  hostA_def dbR_def)
  have len: "length (crawlList inputA) = 2" by (simp add: inputA_def)
  define sL where
    "sL = snd (andThen (await Launch (launch browserOk)) (\<lambda>_. await Version (version browserOk))
                 state0)"
  have l: "andThen (await Launch (launch browserOk)) (\<lambda>_. await Version (version browserOk)) state0
             = (Returned ''Chrome'', sL)"
    unfolding sL_def by (simp add: run_defs browserOk_def scriptedBrowser_def state0_def)
  have fL: "deadline sL = None" "browser sL = 0" "next_page_id sL = 1" "page_tbl sL = []"
      "request_tbl sL = []"
    unfolding sL_def by (simp_all add: run_defs browserOk_def scriptedBrowser_def state0_def)
  let ?item = "crawlItem browserOk hostA ?fl inputA 8"
  define db1 where "db1 = fst (snd (?item 0 dbN sL))"
  define s1 where "s1 = snd (snd (?item 0 dbN sL))"
  define db2 where "db2 = fst (snd (?item 1 db1 s1))"
  define s2 where "s2 = snd (snd (?item 1 db1 s1))"
  have i0: "?item 0 dbN sL = (Returned (), db1, s1)"
    unfolding db1_def s1_def using fL
    by (simp add: item_defs run_defs browserOk_def scriptedBrowser_def
          flagsA_def inputA_def hostA_def)
  have f1: "deadline s1 = None" "browser s1 = 0" "next_page_id s1 = 2" "request_tbl s1 = []"
    unfolding s1_def using fL
    by (simp_all add: item_defs run_defs browserOk_def scriptedBrowser_def
          flagsA_def inputA_def hostA_def)
  have i1: "?item 1 db1 s1 = (Returned (), db2, s2)"
    unfolding db2_def s2_def using f1
    by (simp add: item_defs run_defs browserOk_def scriptedBrowser_def
          flagsA_def inputA_def hostA_def)
  have c2: "clock s2 = 25041"
    unfolding s2_def s1_def sL_def
    by (simp add: item_defs run_defs browserOk_def scriptedBrowser_def
          flagsA_def inputA_def hostA_def state0_def)
  have e1: "db1 = updateIndex 1 8 dbN"
    unfolding db1_def using fL
    by (simp add: item_defs run_defs browserOk_def scriptedBrowser_def
          flagsA_def inputA_def hostA_def)
  have e2: "db2 = updateIndex 2 8 db1"
    unfolding db2_def using f1
    by (simp add: item_defs run_defs browserOk_def scriptedBrowser_def
          flagsA_def inputA_def hostA_def numeral_2_eq_2)
  have d2: "markCompleted 25041 8 db2 = dbResumableFirst"
    unfolding e2 e1 dbN_def
    by (simp add: markCompleted_def updateIndex_def createCrawlEntry_def insertCrawl_def
          dbR_def runR_def dbResumableFirst_def runDoneSecond_def flagsA_def inputA_def
          hostA_def)
  have "crawlLoop browserOk hostA ?fl inputA 8 0 dbN sL
          = crawlLoop browserOk hostA ?fl inputA 8 (0 + 1) db1 s1"
    using len i0 by (intro crawlLoop_step) simp_all
  also have "\<dots> = crawlLoop browserOk hostA ?fl inputA 8 (1 + 1) db2 s2"
    using len i1 by (simp add: crawlLoop_step)
  also have "\<dots> = (Returned (), markCompleted (clock s2) 8 db2, s2)"
    using len by (simp add: crawlLoop_done)
  finally have loop: "crawlLoop browserOk hostA ?fl inputA 8 0 dbN sL
                       = (Returned (), dbResumableFirst, s2)"
    unfolding c2 d2 .
  have v: "validateCrawlList hostA inputA = None" by (rule validate_inputA)
  have cl: "clock state0 = 0" by (simp add: state0_def)
  have "crawl browserOk hostA ?fl inputA dbR state0 = (Settled (Returned ()), dbResumableFirst, s2)"
    using loop res cl by (simp add: crawl_def v launchAndCrawl_def l)
  then show ?thesis by simp
qed

text \<open>
  C3, as stated for any prior run of that name, fails. Run 7 of the name \<open>R\<close> is not
  completed, at index 1, and its basename and length match. A crawl of the same name
  without resumption inserts run 8 and completes it. A later invocation with resumption
  then has a prior run of that name that is already completed, run 8, but the first row is
  run 7: \<^verbatim>\<open>crawl\<close> does not exit. It resumes run 7, launches the browser, visits target 1
  under id 7, and updates the record of run 7.
\<close>

theorem resume_not_rejected_counterexample:
  "fst (snd (crawl browserOk hostA (flagsA\<lparr>resumeIfAble := False\<rparr>) inputA dbR state0))
     = dbResumableFirst
   \<and> crawlName flagsA = Some ''R'' \<and> resumeIfAble flagsA
   \<and> selectByName ''R'' dbResumableFirst = [runR, runDoneSecond]
   \<and> completed runDoneSecond
   \<and> resolveRun hostA flagsA inputA 0 dbResumableFirst = Proceeds 7 1 dbResumableFirst
   \<and> fst (crawl browserOk hostA flagsA inputA dbResumableFirst state0) = Settled (Returned ())
   \<and> take 2 (trace (snd (snd (crawl browserOk hostA flagsA inputA dbResumableFirst state0))))
       = [Launch, Version]
   \<and> map (\<lambda>r. (page_crawl_id r, original_url r, page_url r))
        (page_tbl (snd (snd (crawl browserOk hostA flagsA inputA dbResumableFirst state0))))
       = [(7, ''https://b.example/'', Some ''about:blank'')]
   \<and> map (\<lambda>r. (row_id r, crawl_list_current_index r, completed r))
        (crawl_tbl (fst (snd (crawl browserOk hostA flagsA inputA dbResumableFirst state0))))
       = [(7, 2, True), (8, 2, True)]"
proof -
  have fl: "crawlName flagsA = Some ''R''" "resumeIfAble flagsA" by (simp_all add: flagsA_def)
  have sel: "selectByName ''R'' dbResumableFirst = [runR, runDoneSecond]"
    by (simp add: selectByName_def dbResumableFirst_def runR_def runDoneSecond_def)
  have dn: "completed runDoneSecond" by (simp add: runDoneSecond_def)
  have res: "resolveRun hostA flagsA inputA t dbResumableFirst = Proceeds 7 1 dbResumableFirst" for t
    by (simp add: resolveRun_def sel flagsA_def inputA_def runR_def basename_def)
  have len: "length (crawlList inputA) = 2" by (simp add: inputA_def)
  define sL where
    "sL = snd (andThen (await Launch (launch browserOk)) (\<lambda>_. await Version (version browserOk))
                 state0)"
  have l: "andThen (await Launch (launch browserOk)) (\<lambda>_. await Version (version browserOk)) state0
             = (Returned ''Chrome'', sL)"
    unfolding sL_def by (simp add: run_defs browserOk_def scriptedBrowser_def state0_def)
  have fL: "deadline sL = None" "browser sL = 0" "next_page_id sL = 1" "page_tbl sL = []"
      "trace sL = [Launch, Version]" "request_tbl sL = []"
    unfolding sL_def by (simp_all add: run_defs browserOk_def scriptedBrowser_def state0_def)
  let ?item = "crawlItem browserOk hostA flagsA inputA 7"
  define db2 where "db2 = fst (snd (?item 1 dbResumableFirst sL))"
  define s2 where "s2 = snd (snd (?item 1 dbResumableFirst sL))"
  have i1: "?item 1 dbResumableFirst sL = (Returned (), db2, s2)"
    unfolding db2_def s2_def using fL
    by (simp add: item_defs run_defs browserOk_def scriptedBrowser_def
          flagsA_def inputA_def hostA_def)
  have f2: "take 2 (trace s2) = [Launch, Version]"
      "map (\<lambda>r. (page_crawl_id r, original_url r, page_url r)) (page_tbl s2)
         = [(7, ''https://b.example/'', Some ''about:blank'')]"
    unfolding s2_def using fL
    by (simp_all add: item_defs run_defs browserOk_def scriptedBrowser_def
          flagsA_def inputA_def hostA_def)
  have d2: "map (\<lambda>r. (row_id r, crawl_list_current_index r, completed r))
              (crawl_tbl (markCompleted (clock s2) 7 db2)) = [(7, 2, True), (8, 2, True)]"
    unfolding db2_def using fL
    by (simp add: item_defs run_defs browserOk_def scriptedBrowser_def markCompleted_def
          updateIndex_def dbResumableFirst_def runR_def runDoneSecond_def
          flagsA_def inputA_def hostA_def)
  have "crawlLoop browserOk hostA flagsA inputA 7 1 dbResumableFirst sL
          = crawlLoop browserOk hostA flagsA inputA 7 (1 + 1) db2 s2"
    using len i1 by (intro crawlLoop_step) simp_all
  also have "\<dots> = (Returned (), markCompleted (clock s2) 7 db2, s2)"
    using len by (simp add: crawlLoop_done)
  finally have loop: "crawlLoop browserOk hostA flagsA inputA 7 1 dbResumableFirst sL
                       = (Returned (), markCompleted (clock s2) 7 db2, s2)" .
  have cr: "crawl browserOk hostA flagsA inputA dbResumableFirst state0
              = (Settled (Returned ()), markCompleted (clock s2) 7 db2, s2)"
    using loop by (simp add: crawl_def validate_inputA res launchAndCrawl_def l)
  from dbResumableFirst_made fl sel dn res [of 0] f2 d2 show ?thesis unfolding cr by simp
qed

end
